theory Spec2Isabelle
  imports Main
begin

section \<open>The documentation checker of scripts/check\_docs.py\<close>

text \<open>
  The script reads Go source files and Markdown files below a repository root, extracts
  CLI flag names, cheatcode method names and configuration keys with regular expressions,
  and records an error for every extracted symbol the documentation does not mention.

  Texts are Python \<open>str\<close> values; the model reads them as lists of ASCII characters.
  The character classes \<open>\s\<close> and \<open>\w\<close>, \<open>str.isupper\<close> and \<open>str.lower\<close> are
  given on ASCII; characters above 127 belong to no class and have no case here.
\<close>

subsection \<open>Characters and strings\<close>

abbreviation DQ :: char where "DQ \<equiv> CHR 0x22"
abbreviation SQ :: char where "SQ \<equiv> CHR 0x27"
abbreviation BT :: char where "BT \<equiv> CHR 0x60"

text \<open>\<open>\s\<close> on a \<open>str\<close> pattern: tab, line feed, vertical tab, form feed, carriage
  return, the four separators 0x1C to 0x1F, and the space.\<close>

definition is_space :: "char \<Rightarrow> bool" where
  "is_space c = (c \<in> set [CHR 0x09, CHR 0x0A, CHR 0x0B, CHR 0x0C, CHR 0x0D,
                            CHR 0x1C, CHR 0x1D, CHR 0x1E, CHR 0x1F, CHR 0x20])"

definition upper_chars :: string where
  "upper_chars = ''ABCDEFGHIJKLMNOPQRSTUVWXYZ''"

definition lower_chars :: string where
  "lower_chars = ''abcdefghijklmnopqrstuvwxyz''"

text \<open>\<open>c.isupper()\<close> for a single character.\<close>

definition is_upper :: "char \<Rightarrow> bool" where
  "is_upper c = (c \<in> set upper_chars)"

text \<open>\<open>\w\<close>: letters, digits and the underscore.\<close>

definition is_word :: "char \<Rightarrow> bool" where
  "is_word c = (c \<in> set (lower_chars @ upper_chars @ ''0123456789_''))"

definition lower_char :: "char \<Rightarrow> char" where
  "lower_char c = (case map_of (zip upper_chars lower_chars) c of Some l \<Rightarrow> l | None \<Rightarrow> c)"

text \<open>\<open>s.lower()\<close>.\<close>

definition py_lower :: "string \<Rightarrow> string" where
  "py_lower s = map lower_char s"

text \<open>A literal at the start of a text: the rest of the text after it, or \<open>None\<close>.\<close>

fun strip_prefix :: "string \<Rightarrow> string \<Rightarrow> string option" where
  "strip_prefix [] s = Some s"
| "strip_prefix (p # ps) [] = None"
| "strip_prefix (p # ps) (c # cs) = (if p = c then strip_prefix ps cs else None)"

text \<open>\<open>needle in hay\<close> on strings: the needle occurs at some position of the text.\<close>

fun contains :: "string \<Rightarrow> string \<Rightarrow> bool" where
  "contains needle [] = (needle = [])"
| "contains needle (c # cs) = (strip_prefix needle (c # cs) \<noteq> None \<or> contains needle cs)"

text \<open>\<open>s.endswith(suffix)\<close>.\<close>

definition ends_with :: "string \<Rightarrow> string \<Rightarrow> bool" where
  "ends_with suffix s =
     (length suffix \<le> length s \<and> drop (length s - length suffix) s = suffix)"

text \<open>\<open>s.split(sep)[0]\<close> for a one-character separator: the text before the first
  separator, the whole text when there is none (\<open>split\<close> never returns an empty list).\<close>

definition split_first :: "char \<Rightarrow> string \<Rightarrow> string" where
  "split_first sep s = takeWhile (\<lambda>c. c \<noteq> sep) s"

subsection \<open>Python containers\<close>

text \<open>
  A Python \<open>set\<close> of strings is a list without duplicates; \<open>add\<close> leaves the list as it is
  when the element is present. Python enumerates a set in hash order; the model
  enumerates it in insertion order. Only the order of the recorded errors depends on it.
\<close>

definition set_add :: "string list \<Rightarrow> string \<Rightarrow> string list" where
  "set_add xs x = (if x \<in> set xs then xs else xs @ [x])"

text \<open>\<open>s.update(xs)\<close> and a set comprehension: the elements added one by one.\<close>

definition set_update :: "string list \<Rightarrow> string list \<Rightarrow> string list" where
  "set_update s xs = fold (\<lambda>x acc. set_add acc x) xs s"

text \<open>
  A Python \<open>dict\<close> is an association list with distinct keys in insertion order;
  \<open>d[k] = v\<close> replaces the value of a present key in place and appends a new key.
\<close>

type_synonym dict = "(string \<times> string) list"

fun dict_set :: "dict \<Rightarrow> string \<Rightarrow> string \<Rightarrow> dict" where
  "dict_set [] k v = [(k, v)]"
| "dict_set ((k', v') # d) k v = (if k' = k then (k, v) # d else (k', v') # dict_set d k v)"

subsection \<open>Regular expressions\<close>

text \<open>
  A pattern is modelled by its anchored matcher: applied to the text from some position on,
  it returns the captured groups and the text after the match, or \<open>None\<close>. Each matcher
  below follows its pattern token by token. A greedy repetition takes the longest run; in
  every pattern here the token after a repetition cannot match a character of the
  repeated class (a quote after \<open>[^"]+\<close>, a non-space after \<open>\s*\<close>), so a shorter run never
  leads to a match and backtracking into a repetition is not needed.
\<close>

type_synonym 'g matcher = "string \<Rightarrow> ('g \<times> string) option"

text \<open>
  \<open>re.findall\<close>: the matches from left to right, each search starting where the
  previous match ended; a position without a match is skipped. After an empty match the
  scan moves on by one character (no pattern of the script matches the empty text).
\<close>

function findall :: "'g matcher \<Rightarrow> string \<Rightarrow> 'g list" where
  "findall m s =
     (case m s of
        Some (g, r) \<Rightarrow>
          if length r < length s then g # findall m r
          else g # (case s of [] \<Rightarrow> [] | c # cs \<Rightarrow> findall m cs)
      | None \<Rightarrow> (case s of [] \<Rightarrow> [] | c # cs \<Rightarrow> findall m cs))"
  by pat_completeness auto
termination
  by (relation "measure (\<lambda>(m, s). length s)") auto

text \<open>\<open>re.search\<close> with one group: the group of the leftmost match.\<close>

fun re_search :: "(string \<Rightarrow> 'g option) \<Rightarrow> string \<Rightarrow> 'g option" where
  "re_search m [] = m []"
| "re_search m (c # cs) = (case m (c # cs) of Some g \<Rightarrow> Some g | None \<Rightarrow> re_search m cs)"

text \<open>The tokens \<open>([^"]+)"\<close>: a non-empty run without a double quote, then the quote.\<close>

definition quoted :: "string matcher" where
  "quoted s =
     (case dropWhile (\<lambda>c. c \<noteq> DQ) s of
        [] \<Rightarrow> None
      | q # r \<Rightarrow> if takeWhile (\<lambda>c. c \<noteq> DQ) s = [] then None
                 else Some (takeWhile (\<lambda>c. c \<noteq> DQ) s, r))"

text \<open>The tokens \<open>\s*"\<close>: any white space, then a double quote.\<close>

definition spaces_quote :: "string \<Rightarrow> string option" where
  "spaces_quote s = strip_prefix [DQ] (dropWhile is_space s)"

text \<open>
  \<open>flag_patterns[0]\<close>:
  \<^verbatim>\<open>\.Flags\(\)\.(?:String|Int|Bool|Uint64|StringSlice)\("([^"]+)"\<close>.
  The alternatives are tried in the order written, each with the rest of the pattern.
\<close>

definition flag_types :: "string list" where
  "flag_types = [''String'', ''Int'', ''Bool'', ''Uint64'', ''StringSlice'']"

fun typed_alternatives :: "string list \<Rightarrow> string matcher" where
  "typed_alternatives [] s = None"
| "typed_alternatives (t # ts) s =
     (case strip_prefix (t @ [CHR ''('', DQ]) s of
        None \<Rightarrow> typed_alternatives ts s
      | Some r \<Rightarrow>
          (case quoted r of
             None \<Rightarrow> typed_alternatives ts s
           | Some res \<Rightarrow> Some res))"

definition typed_flag_pattern :: "string matcher" where
  "typed_flag_pattern s =
     (case strip_prefix ''.Flags().'' s of
        None \<Rightarrow> None
      | Some r \<Rightarrow> typed_alternatives flag_types r)"

text \<open>\<open>flag_patterns[1]\<close>: \<^verbatim>\<open>\.Flags\(\)\.CountP\("([^"]+)",\s*"([^"]+)"\<close>.\<close>

definition countp_flag_pattern :: "(string \<times> string) matcher" where
  "countp_flag_pattern s =
     (case strip_prefix (''.Flags().CountP('' @ [DQ]) s of
        None \<Rightarrow> None
      | Some r \<Rightarrow>
          (case quoted r of
             None \<Rightarrow> None
           | Some (long_name, r1) \<Rightarrow>
               (case strip_prefix '','' r1 of
                  None \<Rightarrow> None
                | Some r2 \<Rightarrow>
                    (case spaces_quote r2 of
                       None \<Rightarrow> None
                     | Some r3 \<Rightarrow>
                         (case quoted r3 of
                            None \<Rightarrow> None
                          | Some (short_name, r4) \<Rightarrow> Some ((long_name, short_name), r4))))))"

text \<open>The cheatcode pattern: \<^verbatim>\<open>addMethod\(\s*"([^"]+)"\<close>.\<close>

definition method_pattern :: "string matcher" where
  "method_pattern s =
     (case strip_prefix ''addMethod('' s of
        None \<Rightarrow> None
      | Some r \<Rightarrow>
          (case spaces_quote r of
             None \<Rightarrow> None
           | Some r1 \<Rightarrow> quoted r1))"

text \<open>
  \<open>struct_pattern\<close>: \<^verbatim>\<open>type NAME struct\s*{([^}]+)}\<close>, where the f-string puts the
  struct name into the pattern. The model reads the name as a literal, which is what the
  pattern means for a name of letters, digits and underscores, as all names of
  \<open>config_mappings\<close> are. The matcher returns the group, the body between the braces.
\<close>

definition struct_pattern :: "string \<Rightarrow> string \<Rightarrow> string option" where
  "struct_pattern struct_name s =
     (case strip_prefix (''type '' @ struct_name @ '' struct'') s of
        None \<Rightarrow> None
      | Some r \<Rightarrow>
          (case strip_prefix ''{'' (dropWhile is_space r) of
             None \<Rightarrow> None
           | Some r1 \<Rightarrow>
               (case dropWhile (\<lambda>c. c \<noteq> CHR ''}'') r1 of
                  [] \<Rightarrow> None
                | b # r2 \<Rightarrow> if takeWhile (\<lambda>c. c \<noteq> CHR ''}'') r1 = [] then None
                           else Some (takeWhile (\<lambda>c. c \<noteq> CHR ''}'') r1))))"

text \<open>
  \<open>field_pattern\<close>: \<^verbatim>\<open>(\w+)\s+([^\s`]+)\s*`json:"([^"]+)"\<close>, with the groups
  Go field name, field type and JSON tag.
\<close>

definition field_pattern :: "(string \<times> string \<times> string) matcher" where
  "field_pattern s =
     (let go_field_name = takeWhile is_word s;
          r1 = dropWhile is_word s;
          r2 = dropWhile is_space r1;
          field_type = takeWhile (\<lambda>c. \<not> is_space c \<and> c \<noteq> BT) r2;
          r3 = dropWhile (\<lambda>c. \<not> is_space c \<and> c \<noteq> BT) r2
      in if go_field_name = [] \<or> takeWhile is_space r1 = [] \<or> field_type = [] then None
         else (case strip_prefix (BT # ''json:'' @ [DQ]) (dropWhile is_space r3) of
                 None \<Rightarrow> None
               | Some r4 \<Rightarrow>
                   (case quoted r4 of
                      None \<Rightarrow> None
                    | Some (json_field_name, r5) \<Rightarrow>
                        Some ((go_field_name, field_type, json_field_name), r5))))"

subsection \<open>The checker and the repository it reads\<close>

text \<open>
  The files below the repository root: a path has no file, a file with its text, or a
  file that exists and cannot be read (\<open>read_text\<close> raises).
\<close>

datatype node = File string | Unreadable

type_synonym repo = "string \<Rightarrow> node option"

datatype exn = ReadError string | IndexError

text \<open>The summary lines the checks print; the numbers are kept as numbers.\<close>

datatype out_line =
    Checking string
  | Found_flags nat nat
  | Found_cheatcodes nat nat
  | Found_fields nat

text \<open>\<open>DocChecker\<close>: the two lists of messages, and the lines printed so far.\<close>

record doc_checker =
  errors :: "string list"
  warnings :: "string list"
  printed :: "out_line list"

definition new_checker :: doc_checker where
  "new_checker = \<lparr>errors = [], warnings = [], printed = []\<rparr>"

definition add_error :: "string \<Rightarrow> doc_checker \<Rightarrow> doc_checker" where
  "add_error msg c = c\<lparr>errors := errors c @ [msg]\<rparr>"

definition add_warning :: "string \<Rightarrow> doc_checker \<Rightarrow> doc_checker" where
  "add_warning msg c = c\<lparr>warnings := warnings c @ [msg]\<rparr>"

definition print_line :: "out_line \<Rightarrow> doc_checker \<Rightarrow> doc_checker" where
  "print_line l c = c\<lparr>printed := printed c @ [l]\<rparr>"

text \<open>Sequencing of steps that may raise.\<close>

definition and_then :: "exn + 'a \<Rightarrow> ('a \<Rightarrow> exn + 'b) \<Rightarrow> exn + 'b" where
  "and_then r f = (case r of Inl e \<Rightarrow> Inl e | Inr a \<Rightarrow> f a)"

subsection \<open>CLI flags\<close>

text \<open>The two loops of \<open>_extract_flags_from_file\<close> over the text of the file.\<close>

definition flags_in :: "string \<Rightarrow> string list" where
  "flags_in content =
     set_update (set_update [] (findall typed_flag_pattern content))
       (map fst (findall countp_flag_pattern content))"

definition extract_flags_from_file ::
  "repo \<Rightarrow> string \<Rightarrow> doc_checker \<Rightarrow> exn + (string list \<times> doc_checker)" where
  "extract_flags_from_file fs file_path c =
     (case fs file_path of
        None \<Rightarrow> Inr ([], add_error (''Source file not found: '' @ file_path) c)
      | Some Unreadable \<Rightarrow> Inl (ReadError file_path)
      | Some (File content) \<Rightarrow> Inr (flags_in content, c))"

definition flag_documented :: "string \<Rightarrow> string \<Rightarrow> bool" where
  "flag_documented doc_content flag =
     (contains (''--'' @ flag) doc_content \<or> contains ([BT] @ flag @ [BT]) doc_content)"

definition flag_error :: "string \<Rightarrow> string \<Rightarrow> string \<Rightarrow> string" where
  "flag_error flag command doc_file =
     ''CLI flag '' @ [SQ] @ ''--'' @ flag @ [SQ] @ '' for '' @ [SQ] @ command @ [SQ]
       @ '' command not documented in '' @ doc_file"

definition validate_flags_documented ::
  "repo \<Rightarrow> string list \<Rightarrow> string \<Rightarrow> string \<Rightarrow> doc_checker \<Rightarrow> exn + doc_checker" where
  "validate_flags_documented fs flags command doc_file c =
     (case fs doc_file of
        None \<Rightarrow> Inr (add_error (''Documentation file not found: '' @ doc_file) c)
      | Some Unreadable \<Rightarrow> Inl (ReadError doc_file)
      | Some (File doc_content) \<Rightarrow>
          Inr (fold (\<lambda>flag c'. if \<not> flag_documented doc_content flag
                                then add_error (flag_error flag command doc_file) c'
                                else c') flags c))"

definition check_cli_flags :: "repo \<Rightarrow> doc_checker \<Rightarrow> exn + doc_checker" where
  "check_cli_flags fs c =
     and_then (extract_flags_from_file fs ''cmd/fuzz_flags.go''
                (print_line (Checking ''CLI flags'') c)) (\<lambda>(fuzz_flags, c1).
     and_then (validate_flags_documented fs fuzz_flags ''fuzz'' ''docs/src/cli/fuzz.md'' c1) (\<lambda>c2.
     and_then (extract_flags_from_file fs ''cmd/init_flags.go'' c2) (\<lambda>(init_flags, c3).
     and_then (validate_flags_documented fs init_flags ''init'' ''docs/src/cli/init.md'' c3) (\<lambda>c4.
     Inr (print_line (Found_flags (length fuzz_flags) (length init_flags)) c4)))))"

subsection \<open>Cheatcodes\<close>

definition cheatcode_source :: string where
  "cheatcode_source = ''chain/standard_cheat_code_contract.go''"

definition cheatcode_interface :: string where
  "cheatcode_interface = ''docs/src/cheatcodes/cheatcodes_overview.md''"

text \<open>The matches of the cheatcode pattern, collected into a set.\<close>

definition cheatcodes_in :: "string \<Rightarrow> string list" where
  "cheatcodes_in content = set_update [] (findall method_pattern content)"

definition extract_cheatcodes :: "repo \<Rightarrow> doc_checker \<Rightarrow> exn + (string list \<times> doc_checker)" where
  "extract_cheatcodes fs c =
     (case fs cheatcode_source of
        None \<Rightarrow> Inr ([], add_error (''Cheatcode source file not found: '' @ cheatcode_source) c)
      | Some Unreadable \<Rightarrow> Inl (ReadError cheatcode_source)
      | Some (File content) \<Rightarrow> Inr (cheatcodes_in content, c))"

text \<open>The set comprehension of \<open>check_cheatcodes\<close>: the text before the first parenthesis
  of every registration.\<close>

definition base_methods_of :: "string list \<Rightarrow> string list" where
  "base_methods_of cheatcodes = set_update [] (map (split_first (CHR ''('')) cheatcodes)"

definition method_documented :: "string \<Rightarrow> string \<Rightarrow> bool" where
  "method_documented interface_content method_name =
     contains (''function '' @ method_name @ ''('') interface_content"

definition method_error :: "string \<Rightarrow> string" where
  "method_error method_name =
     ''Cheatcode '' @ [SQ] @ method_name @ [SQ] @ '' not found in interface at ''
       @ cheatcode_interface"

definition validate_cheatcodes_in_interface ::
  "repo \<Rightarrow> string list \<Rightarrow> doc_checker \<Rightarrow> exn + doc_checker" where
  "validate_cheatcodes_in_interface fs base_methods c =
     (case fs cheatcode_interface of
        None \<Rightarrow>
          Inr (add_error (''Cheatcode interface file not found: '' @ cheatcode_interface) c)
      | Some Unreadable \<Rightarrow> Inl (ReadError cheatcode_interface)
      | Some (File interface_content) \<Rightarrow>
          Inr (fold (\<lambda>method_name c'. if \<not> method_documented interface_content method_name
                                       then add_error (method_error method_name) c'
                                       else c') base_methods c))"

definition check_cheatcodes :: "repo \<Rightarrow> doc_checker \<Rightarrow> exn + doc_checker" where
  "check_cheatcodes fs c =
     and_then (extract_cheatcodes fs (print_line (Checking ''cheatcodes'') c)) (\<lambda>(cheatcodes, c1).
     validate_cheatcodes_in_interface fs (base_methods_of cheatcodes)
       (print_line (Found_cheatcodes (length cheatcodes) (length (base_methods_of cheatcodes))) c1))"

subsection \<open>Configuration fields\<close>

definition nested_config_types :: "string list" where
  "nested_config_types = [''TestingConfig'', ''CheatCodeConfig'', ''ForkConfig'']"

text \<open>
  The body of the loop over the field matches of one struct. \<open>go_field_name[0]\<close> raises
  on an empty name.
\<close>

fun add_field :: "string \<Rightarrow> dict \<Rightarrow> string \<times> string \<times> string \<Rightarrow> exn + dict" where
  "add_field struct_name flds (go_field_name, field_type, json_field_name) =
     (case go_field_name of
        [] \<Rightarrow> Inl IndexError
      | c # _ \<Rightarrow>
          if \<not> is_upper c then Inr flds
          else if contains '',omitempty'' json_field_name then Inr flds
          else if ends_with ''Config'' field_type \<or> field_type \<in> set nested_config_types
          then Inr flds
          else Inr (dict_set flds (split_first (CHR '','') json_field_name) struct_name))"

fun add_fields :: "string \<Rightarrow> dict \<Rightarrow> (string \<times> string \<times> string) list \<Rightarrow> exn + dict" where
  "add_fields struct_name flds [] = Inr flds"
| "add_fields struct_name flds (m # ms) =
     (case add_field struct_name flds m of
        Inl e \<Rightarrow> Inl e
      | Inr flds' \<Rightarrow> add_fields struct_name flds' ms)"

text \<open>The loop over the requested struct names; a struct the text does not define is
  skipped.\<close>

fun scan_structs :: "string \<Rightarrow> dict \<Rightarrow> string list \<Rightarrow> exn + dict" where
  "scan_structs content flds [] = Inr flds"
| "scan_structs content flds (struct_name # rest) =
     (case re_search (struct_pattern struct_name) content of
        None \<Rightarrow> scan_structs content flds rest
      | Some struct_body \<Rightarrow>
          (case add_fields struct_name flds (findall field_pattern struct_body) of
             Inl e \<Rightarrow> Inl e
           | Inr flds' \<Rightarrow> scan_structs content flds' rest))"

definition extract_config_fields ::
  "repo \<Rightarrow> string \<Rightarrow> string list \<Rightarrow> doc_checker \<Rightarrow> exn + (dict \<times> doc_checker)" where
  "extract_config_fields fs source_file struct_names c =
     (case fs source_file of
        None \<Rightarrow> Inr ([], add_warning (''Config source file not found: '' @ source_file) c)
      | Some Unreadable \<Rightarrow> Inl (ReadError source_file)
      | Some (File content) \<Rightarrow>
          and_then (scan_structs content [] struct_names) (\<lambda>flds. Inr (flds, c)))"

definition config_field_documented :: "string \<Rightarrow> string \<Rightarrow> bool" where
  "config_field_documented doc_content field_name =
     (contains ([BT] @ field_name @ [BT]) doc_content
        \<or> contains (''## '' @ field_name) (py_lower doc_content))"

definition config_field_error :: "string \<Rightarrow> string \<Rightarrow> string \<Rightarrow> string" where
  "config_field_error field_name struct_name doc_file =
     ''Config field '' @ [SQ] @ field_name @ [SQ] @ '' from '' @ struct_name
       @ '' not documented in '' @ doc_file"

definition validate_config_fields_documented ::
  "repo \<Rightarrow> dict \<Rightarrow> string \<Rightarrow> doc_checker \<Rightarrow> exn + doc_checker" where
  "validate_config_fields_documented fs flds doc_file c =
     (case fs doc_file of
        None \<Rightarrow> Inr (add_error (''Config documentation file not found: '' @ doc_file) c)
      | Some Unreadable \<Rightarrow> Inl (ReadError doc_file)
      | Some (File doc_content) \<Rightarrow>
          Inr (fold (\<lambda>(field_name, struct_name) c'.
                       if \<not> config_field_documented doc_content field_name
                       then add_error (config_field_error field_name struct_name doc_file) c'
                       else c') flds c))"

definition config_mappings :: "(string \<times> string list \<times> string) list" where
  "config_mappings =
     [(''fuzzing/config/config.go'',
       [''FuzzingConfig''],
       ''docs/src/project_configuration/fuzzing_config.md''),
      (''fuzzing/config/config.go'',
       [''TestingConfig'', ''AssertionTestingConfig'', ''PropertyTestingConfig'',
        ''OptimizationTestingConfig''],
       ''docs/src/project_configuration/testing_config.md''),
      (''chain/config/config.go'',
       [''TestChainConfig'', ''CheatCodeConfig'', ''ForkConfig''],
       ''docs/src/project_configuration/chain_config.md''),
      (''compilation/compilation_config.go'',
       [''CompilationConfig''],
       ''docs/src/project_configuration/compilation_config.md''),
      (''fuzzing/config/config.go'',
       [''LoggingConfig''],
       ''docs/src/project_configuration/logging_config.md'')]"

text \<open>One round of the loop of \<open>check_config_fields\<close>: the state is the running total of
  fields and the checker.\<close>

definition check_config_mapping ::
  "repo \<Rightarrow> string \<times> string list \<times> string \<Rightarrow> nat \<times> doc_checker \<Rightarrow> exn + (nat \<times> doc_checker)" where
  "check_config_mapping fs mapping st =
     (case (mapping, st) of ((source_file, struct_names, doc_file), (total_fields, c)) \<Rightarrow>
        and_then (extract_config_fields fs source_file struct_names c) (\<lambda>(flds, c1).
          if flds \<noteq> []
          then and_then (validate_config_fields_documented fs flds doc_file c1)
                 (\<lambda>c2. Inr (total_fields + length flds, c2))
          else Inr (total_fields + length flds, c1)))"

fun check_config_loop ::
  "repo \<Rightarrow> (string \<times> string list \<times> string) list \<Rightarrow> nat \<times> doc_checker \<Rightarrow> exn + (nat \<times> doc_checker)" where
  "check_config_loop fs [] st = Inr st"
| "check_config_loop fs (mapping # rest) st =
     and_then (check_config_mapping fs mapping st) (check_config_loop fs rest)"

definition check_config_fields :: "repo \<Rightarrow> doc_checker \<Rightarrow> exn + doc_checker" where
  "check_config_fields fs c =
     and_then (check_config_loop fs config_mappings
                (0, print_line (Checking ''configuration fields'') c))
       (\<lambda>(total_fields, c1). Inr (print_line (Found_fields total_fields) c1))"

subsection \<open>The report and the entry point\<close>

text \<open>\<open>report\<close> prints the warnings and the errors and leaves the process through
  \<open>sys.exit\<close>; the model keeps the exit status.\<close>

definition report :: "doc_checker \<Rightarrow> nat" where
  "report c = (if errors c \<noteq> [] then 1 else 0)"

text \<open>\<open>main\<close>: the three checks in order; an exception of any of them is caught and
  the process leaves with status 1 before the report.\<close>

definition run_checks :: "repo \<Rightarrow> exn + doc_checker" where
  "run_checks fs =
     and_then (check_cli_flags fs new_checker) (\<lambda>c1.
     and_then (check_cheatcodes fs c1) (\<lambda>c2.
     check_config_fields fs c2))"

definition main :: "repo \<Rightarrow> nat" where
  "main fs = (case run_checks fs of Inl e \<Rightarrow> 1 | Inr c \<Rightarrow> report c)"

section \<open>Source texts of a given shape\<close>

text \<open>A cheatcode registration as the Go source writes it: the call, white space, and the
  quoted signature.\<close>

definition registration :: "string \<Rightarrow> string \<Rightarrow> string" where
  "registration ws r = ''addMethod('' @ ws @ [DQ] @ r @ [DQ]"

text \<open>
  A flag declaration as the Go source writes it without white space between its tokens:
  a typed setter \<^verbatim>\<open>.Flags().T("name"\<close>, or a counting flag
  \<^verbatim>\<open>.Flags().CountP("long",\<close> white space \<^verbatim>\<open>"short"\<close>. A source text is a list
  of declarations, each after a stretch of other text, and a last stretch of other text.
  The head of a declaration is its text up to the quote that opens the name. A name is
  valid when it is not empty, has no double quote and does not contain \<^verbatim>\<open>.Flags().\<close>;
  other text is filler when no head of a declaration occurs in it.
\<close>

datatype flag_decl = Typed string string | CountP string string string

fun decl_text :: "flag_decl \<Rightarrow> string" where
  "decl_text (Typed t n) = ''.Flags().'' @ t @ [CHR ''('', DQ] @ n @ [DQ]"
| "decl_text (CountP l ws sh) =
     ''.Flags().CountP('' @ [DQ] @ l @ [DQ] @ '','' @ ws @ [DQ] @ sh @ [DQ]"

fun decl_name :: "flag_decl \<Rightarrow> string" where
  "decl_name (Typed t n) = n"
| "decl_name (CountP l ws sh) = l"

definition declaration_heads :: "string list" where
  "declaration_heads =
     map (\<lambda>t. ''.Flags().'' @ t @ [CHR ''('', DQ]) (flag_types @ [''CountP''])"

definition valid_name :: "string \<Rightarrow> bool" where
  "valid_name n = (n \<noteq> [] \<and> DQ \<notin> set n \<and> \<not> contains ''.Flags().'' n)"

fun valid_decl :: "flag_decl \<Rightarrow> bool" where
  "valid_decl (Typed t n) = (t \<in> set flag_types \<and> valid_name n)"
| "valid_decl (CountP l ws sh) = (valid_name l \<and> valid_name sh \<and> list_all is_space ws)"

definition filler :: "string \<Rightarrow> bool" where
  "filler f = list_all (\<lambda>h. \<not> contains h f) declaration_heads"

fun source_text :: "(string \<times> flag_decl) list \<Rightarrow> string \<Rightarrow> string" where
  "source_text [] fin = fin"
| "source_text ((f, d) # ds) fin = f @ decl_text d @ source_text ds fin"

definition well_formed :: "(string \<times> flag_decl) list \<Rightarrow> string \<Rightarrow> bool" where
  "well_formed ds fin = (list_all (\<lambda>(f, d). filler f \<and> valid_decl d) ds \<and> filler fin)"

fun typed_part :: "flag_decl \<Rightarrow> string list" where
  "typed_part (Typed t n) = [n]"
| "typed_part (CountP l ws sh) = []"

fun countp_part :: "flag_decl \<Rightarrow> (string \<times> string) list" where
  "countp_part (Typed t n) = []"
| "countp_part (CountP l ws sh) = [(l, sh)]"

section \<open>The keys a struct contributes\<close>

text \<open>
  The three \<open>continue\<close> tests of the field loop as one predicate on a match, the key the
  loop stores for a match, and the keys one requested struct contributes in the order
  of its fields (none when the text does not define the struct).
\<close>

definition extractable :: "string \<times> string \<times> string \<Rightarrow> bool" where
  "extractable m =
     (case m of (go_field_name, field_type, json_field_name) \<Rightarrow>
        (case go_field_name of [] \<Rightarrow> False | c # _ \<Rightarrow> is_upper c)
        \<and> \<not> contains '',omitempty'' json_field_name
        \<and> \<not> (ends_with ''Config'' field_type \<or> field_type \<in> set nested_config_types))"

definition field_key :: "string \<times> string \<times> string \<Rightarrow> string" where
  "field_key m = (case m of (go_field_name, field_type, json_field_name) \<Rightarrow>
                    split_first (CHR '','') json_field_name)"

definition struct_keys :: "string \<Rightarrow> string \<Rightarrow> string list" where
  "struct_keys content struct_name =
     (case re_search (struct_pattern struct_name) content of
        None \<Rightarrow> []
      | Some struct_body \<Rightarrow> map field_key (filter extractable (findall field_pattern struct_body)))"

definition put_keys :: "string \<Rightarrow> string list \<Rightarrow> dict \<Rightarrow> dict" where
  "put_keys struct_name ks flds = fold (\<lambda>k d. dict_set d k struct_name) ks flds"

section \<open>Example repositories\<close>

definition quiet_repo :: repo where
  "quiet_repo =
     [''cmd/fuzz_flags.go'' \<mapsto> File [], ''docs/src/cli/fuzz.md'' \<mapsto> File [],
      ''cmd/init_flags.go'' \<mapsto> File [], ''docs/src/cli/init.md'' \<mapsto> File [],
      ''chain/standard_cheat_code_contract.go'' \<mapsto> File [],
      ''docs/src/cheatcodes/cheatcodes_overview.md'' \<mapsto> File []]"

definition quiet_result :: doc_checker where
  "quiet_result =
     \<lparr>errors = [],
      warnings =
        [''Config source file not found: fuzzing/config/config.go'',
         ''Config source file not found: fuzzing/config/config.go'',
         ''Config source file not found: chain/config/config.go'',
         ''Config source file not found: compilation/compilation_config.go'',
         ''Config source file not found: fuzzing/config/config.go''],
      printed =
        [Checking ''CLI flags'', Found_flags 0 0, Checking ''cheatcodes'',
         Found_cheatcodes 0 0, Checking ''configuration fields'', Found_fields 0]\<rparr>"

definition docs_only_repo :: repo where
  "docs_only_repo =
     [''docs/src/cli/fuzz.md'' \<mapsto> File ''--seed'',
      ''docs/src/cheatcodes/cheatcodes_overview.md'' \<mapsto> File ''function warp('']"

definition one_struct_repo :: repo where
  \<open>one_struct_repo =
     [''fuzzing/config/config.go'' \<mapsto>
        File ''type FuzzingConfig struct { Workers int `json:"workers"` }'']\<close>

definition empty_struct_repo :: repo where
  "empty_struct_repo =
     [''fuzzing/config/config.go'' \<mapsto> File ''type FuzzingConfig struct { }'']"

definition fuzz_doc_repo :: repo where
  "fuzz_doc_repo = [''docs/src/cli/fuzz.md'' \<mapsto> File ''see --seed-file for details'']"

definition overload_source :: string where
  \<open>overload_source =
     ''contract.addMethod(\<newline>  "toString(address)", f)\<newline>contract.addMethod("toString(uint256)", g)\<newline>''\<close>

definition overload_repo :: repo where
  "overload_repo =
     [cheatcode_source \<mapsto> File overload_source,
      cheatcode_interface \<mapsto> File ''function toString(address) external;'']"

definition tagged_source :: string where
  \<open>tagged_source =
     ''type FuzzingConfig struct {\<newline>  Workers int `json:"workers"`\<newline>  Seed int `json:"seed,omitempty,string"`\<newline>}''\<close>

definition tagged_repo :: repo where
  "tagged_repo = [''fuzzing/config/config.go'' \<mapsto> File tagged_source]"

definition mixed_case_repo :: repo where
  \<open>mixed_case_repo =
     [''fuzzing/config/config.go'' \<mapsto>
        File ''type FuzzingConfig struct {\<newline>  Seed int `json:"seed,OmitEmpty"`\<newline>}'']\<close>

definition unnamed_key_repo :: repo where
  \<open>unnamed_key_repo =
     [''fuzzing/config/config.go'' \<mapsto>
        File ''type FuzzingConfig struct {\<newline>  Seed int `json:",string"`\<newline>}'']\<close>

definition calls_source :: string where
  \<open>calls_source = ''cmd.Flags().Int("seed", 0, "")  addMethod("warp(uint256)", f)''\<close>

definition shared_key_source :: string where
  \<open>shared_key_source =
     ''type AssertionTestingConfig struct { Enabled bool `json:"enabled"` }\<newline>type PropertyTestingConfig struct { Enabled bool `json:"enabled"` }''\<close>

definition shared_key_repo :: repo where
  "shared_key_repo =
     [''fuzzing/config/config.go'' \<mapsto> File shared_key_source,
      ''docs/src/project_configuration/testing_config.md'' \<mapsto> File ''# Testing'']"

definition sample_decls :: "(string \<times> flag_decl) list" where
  \<open>sample_decls =
     [(''cmd'', Typed ''String'' ''config''),
      ('', "", "path")\<newline>cmd.Flags().SortFlags = false\<newline>cmd'',
       CountP ''verbose'' '' '' ''v''),
      ('', "more")\<newline>if cmd.Flags().Changed("config") { }\<newline>cmd'',
       Typed ''StringSlice'' ''rpc.url'')]\<close>

definition sample_tail :: string where
  \<open>sample_tail = '', nil, "urls")\<newline>n, _ := cmd.Flags().GetInt("workers")\<newline>''\<close>

definition split_call_source :: string where
  \<open>split_call_source =
     ''cmd.Flags().String(\<newline>    "config", "", "path to config file")\<newline>''\<close>

definition repeated_source :: string where
  \<open>repeated_source =
     ''contract.addMethod("warp(uint256)", f)\<newline>contract.addMethod("warp(uint256)", g)\<newline>''\<close>

definition repeated_repo :: repo where
  "repeated_repo =
     [cheatcode_source \<mapsto> File repeated_source,
      cheatcode_interface \<mapsto> File ''function warp(uint256) external;'']"

definition later_omitempty_source :: string where
  \<open>later_omitempty_source =
     ''type AssertionTestingConfig struct { Enabled bool `json:"enabled"` }\<newline>type PropertyTestingConfig struct { Enabled bool `json:"enabled,omitempty"` }''\<close>

definition later_omitempty_repo :: repo where
  "later_omitempty_repo = [''fuzzing/config/config.go'' \<mapsto> File later_omitempty_source]"

definition call_in_name_source :: string where
  \<open>call_in_name_source = ''cmd.Flags().CountP("verbose", "x.Flags().String(", "more")''\<close>

section \<open>Properties\<close>

subsection \<open>Strings and scanning\<close>

declare findall.simps [simp del]

lemma strip_prefix_iff: "strip_prefix p s = Some r \<longleftrightarrow> s = p @ r"
  by (induction p s rule: strip_prefix.induct) auto

lemma strip_prefix_append: "strip_prefix p (p @ r) = Some r"
  by (simp add: strip_prefix_iff)

lemma strip_prefix_None_iff: "strip_prefix p s = None \<longleftrightarrow> (\<forall>r. s \<noteq> p @ r)"
  by (metis strip_prefix_iff not_Some_eq)

lemma contains_iff: "contains n h \<longleftrightarrow> (\<exists>a b. h = a @ n @ b)"
proof (induction h)
  case Nil
  show ?case by auto
next
  case (Cons c cs)
  show ?case
  proof
    assume "contains n (c # cs)"
    then consider "strip_prefix n (c # cs) \<noteq> None" | "contains n cs" by auto
    then show "\<exists>a b. c # cs = a @ n @ b"
    proof cases
      case 1
      then obtain r where "c # cs = n @ r" by (auto simp: strip_prefix_iff)
      then have "c # cs = [] @ n @ r" by simp
      then show ?thesis by blast
    next
      case 2
      with Cons obtain a b where "cs = a @ n @ b" by blast
      then have "c # cs = (c # a) @ n @ b" by simp
      then show ?thesis by blast
    qed
  next
    assume "\<exists>a b. c # cs = a @ n @ b"
    then obtain a b where ab: "c # cs = a @ n @ b" by blast
    show "contains n (c # cs)"
    proof (cases a)
      case Nil
      with ab have "strip_prefix n (c # cs) = Some b" by (simp add: strip_prefix_iff)
      then show ?thesis by simp
    next
      case (Cons a0 a')
      with ab have "cs = a' @ n @ b" by simp
      with Cons.IH have "contains n cs" by blast
      then show ?thesis by simp
    qed
  qed
qed

lemma findall_Nil: "m [] = None \<Longrightarrow> findall m [] = []"
  by (simp add: findall.simps)

lemma findall_miss: "m (c # cs) = None \<Longrightarrow> findall m (c # cs) = findall m cs"
  by (simp add: findall.simps)

lemma findall_hit: "m s = Some (g, r) \<Longrightarrow> length r < length s \<Longrightarrow> findall m s = g # findall m r"
  by (subst findall.simps) simp

lemma findall_source:
  "x \<in> set (findall m s) \<Longrightarrow> \<exists>s' r. m s' = Some (x, r)"
proof (induction "length s" arbitrary: s rule: less_induct)
  case less
  show ?case
  proof (cases "m s")
    case None
    with less.prems obtain c cs where s: "s = c # cs" and "x \<in> set (findall m cs)"
      by (cases s) (auto simp: findall.simps)
    with less.hyps [of cs] show ?thesis by simp
  next
    case (Some a)
    then obtain g r where gr: "m s = Some (g, r)" by (cases a) auto
    show ?thesis
    proof (cases "x = g")
      case True
      with gr show ?thesis by blast
    next
      case False
      show ?thesis
      proof (cases "length r < length s")
        case True
        with gr False less.prems have "x \<in> set (findall m r)"
          by (subst (asm) findall.simps) simp
        with less.hyps [of r] True show ?thesis by simp
      next
        case nl: False
        with gr False less.prems obtain c cs where "s = c # cs" and "x \<in> set (findall m cs)"
          by (cases s) (auto simp: findall.simps)
        with less.hyps [of cs] show ?thesis by simp
      qed
    qed
  qed
qed

lemma fold_add_error:
  "fold (\<lambda>x c'. if P x then add_error (f x) c' else c') xs c
     = c\<lparr>errors := errors c @ map f (filter P xs)\<rparr>"
  by (induction xs arbitrary: c) (simp_all add: add_error_def)

subsection \<open>The validators on a readable file\<close>

lemma fold_add_error_pair:
  "fold (\<lambda>(k, v) c'. if P k then add_error (f k v) c' else c') xs c
     = c\<lparr>errors := errors c @ map (\<lambda>(k, v). f k v) (filter (\<lambda>(k, v). P k) xs)\<rparr>"
  by (induction xs arbitrary: c) (simp_all add: add_error_def case_prod_beta)

lemma validate_flags_readable:
  "fs doc_file = Some (File doc_content) \<Longrightarrow>
   validate_flags_documented fs flags command doc_file c =
     Inr (c\<lparr>errors := errors c @ map (\<lambda>flag. flag_error flag command doc_file)
                                  (filter (\<lambda>flag. \<not> flag_documented doc_content flag) flags)\<rparr>)"
  by (simp add: validate_flags_documented_def fold_add_error)

lemma validate_cheatcodes_readable:
  "fs cheatcode_interface = Some (File interface_content) \<Longrightarrow>
   validate_cheatcodes_in_interface fs base_methods c =
     Inr (c\<lparr>errors := errors c @ map method_error
                (filter (\<lambda>name. \<not> method_documented interface_content name) base_methods)\<rparr>)"
  by (simp add: validate_cheatcodes_in_interface_def fold_add_error)

lemma validate_config_readable:
  "fs doc_file = Some (File doc_content) \<Longrightarrow>
   validate_config_fields_documented fs flds doc_file c =
     Inr (c\<lparr>errors := errors c @ map (\<lambda>(k, s). config_field_error k s doc_file)
                (filter (\<lambda>(k, s). \<not> config_field_documented doc_content k) flds)\<rparr>)"
  by (simp add: validate_config_fields_documented_def fold_add_error_pair)

lemma flag_error_inject:
  "flag_error f command doc_file = flag_error f' command doc_file \<Longrightarrow> f = f'"
  by (simp add: flag_error_def)

subsection \<open>Sets, quoted names and the cheatcode pattern\<close>

lemma set_add_simps:
  "x \<in> set xs \<Longrightarrow> set_add xs x = xs"
  "x \<notin> set xs \<Longrightarrow> set_add xs x = xs @ [x]"
  by (simp_all add: set_add_def)

lemma set_update_Nil [simp]: "set_update s [] = s"
  by (simp add: set_update_def)

lemma set_update_Cons [simp]: "set_update s (x # xs) = set_update (set_add s x) xs"
  by (simp add: set_update_def)

lemma set_set_add [simp]: "set (set_add xs x) = insert x (set xs)"
  by (auto simp: set_add_def)

lemma distinct_set_add [simp]: "distinct (set_add xs x) = distinct xs"
  by (auto simp: set_add_def)

lemma set_set_update [simp]: "set (set_update s xs) = set s \<union> set xs"
  by (induction xs arbitrary: s) auto

lemma distinct_set_update [simp]: "distinct (set_update s xs) = distinct s"
  by (induction xs arbitrary: s) auto

lemma quoted_Some:
  assumes "quoted s = Some (g, r)"
  shows "s = g @ DQ # r \<and> g \<noteq> [] \<and> DQ \<notin> set g"
proof -
  from assms obtain q where d: "dropWhile (\<lambda>c. c \<noteq> DQ) s = q # r"
    and g: "g = takeWhile (\<lambda>c. c \<noteq> DQ) s" and ne: "g \<noteq> []"
    by (auto simp: quoted_def split: list.splits if_splits)
  from d have "q = DQ" using hd_dropWhile [of "\<lambda>c. c \<noteq> DQ" s] by simp
  with d g have "s = g @ DQ # r" using takeWhile_dropWhile_id [of "\<lambda>c. c \<noteq> DQ" s] by simp
  moreover have "DQ \<notin> set g" using g by (auto dest: set_takeWhileD)
  ultimately show ?thesis using ne by simp
qed

lemma quoted_append:
  "g \<noteq> [] \<Longrightarrow> DQ \<notin> set g \<Longrightarrow> quoted (g @ DQ # r) = Some (g, r)"
proof -
  assume ne: "g \<noteq> []" and nq: "DQ \<notin> set g"
  have t: "takeWhile (\<lambda>c. c \<noteq> DQ) (g @ DQ # r) = g"
    using nq by (subst takeWhile_append2) auto
  have d: "dropWhile (\<lambda>c. c \<noteq> DQ) (g @ DQ # r) = DQ # r"
    using nq by (subst dropWhile_append2) auto
  show ?thesis using ne by (simp add: quoted_def t d)
qed

lemma not_space_DQ [simp]: "\<not> is_space DQ"
  by (simp add: is_space_def)

lemma spaces_quote_Some:
  assumes "spaces_quote s = Some r"
  shows "\<exists>ws. s = ws @ DQ # r \<and> (\<forall>c\<in>set ws. is_space c)"
proof -
  from assms have "dropWhile is_space s = DQ # r"
    by (simp add: spaces_quote_def strip_prefix_iff)
  then have "s = takeWhile is_space s @ DQ # r"
    using takeWhile_dropWhile_id [of is_space s] by simp
  moreover have "\<forall>c\<in>set (takeWhile is_space s). is_space c"
    by (auto dest: set_takeWhileD)
  ultimately show ?thesis by blast
qed

lemma spaces_quote_append:
  "\<forall>c\<in>set ws. is_space c \<Longrightarrow> spaces_quote (ws @ DQ # r) = Some r"
proof -
  assume "\<forall>c\<in>set ws. is_space c"
  then have "dropWhile is_space (ws @ DQ # r) = DQ # r"
    by (subst dropWhile_append2) auto
  then show ?thesis by (simp add: spaces_quote_def)
qed

lemma method_pattern_Some:
  assumes "method_pattern s = Some (g, r)"
  shows "\<exists>ws. s = ''addMethod('' @ ws @ DQ # g @ DQ # r \<and> (\<forall>c\<in>set ws. is_space c)
              \<and> g \<noteq> [] \<and> DQ \<notin> set g"
proof -
  from assms obtain r0 r1 where a: "strip_prefix ''addMethod('' s = Some r0"
    and b: "spaces_quote r0 = Some r1" and c: "quoted r1 = Some (g, r)"
    by (auto simp: method_pattern_def split: option.splits)
  from b obtain ws where ws: "r0 = ws @ DQ # r1" "\<forall>c\<in>set ws. is_space c"
    using spaces_quote_Some by blast
  from a have "s = ''addMethod('' @ r0" by (simp only: strip_prefix_iff)
  with ws quoted_Some [OF c] show ?thesis by auto
qed

lemma method_pattern_registration:
  assumes "\<forall>c\<in>set ws. is_space c" "r \<noteq> []" "DQ \<notin> set r"
  shows "method_pattern (registration ws r @ rest) = Some (r, rest)"
proof -
  have "strip_prefix ''addMethod('' (registration ws r @ rest) = Some (ws @ DQ # r @ DQ # rest)"
    by (simp only: strip_prefix_iff registration_def) simp
  then show ?thesis
    using assms by (simp add: method_pattern_def spaces_quote_append quoted_append)
qed

text \<open>No match begins inside a stretch of text that does not contain the literal the
  pattern starts with, when the text after the stretch is empty or starts with a character
  that the literal has only at its front.\<close>

lemma no_match_across:
  assumes lit: "\<And>s x. m s = Some x \<Longrightarrow> strip_prefix P s \<noteq> None"
    and u: "strip_prefix P u = None" and ne: "u \<noteq> []"
    and rest: "rest = [] \<or> hd rest \<notin> set (tl P)"
  shows "m (u @ rest) = None"
proof (rule ccontr)
  assume "m (u @ rest) \<noteq> None"
  then obtain x where "m (u @ rest) = Some x" by blast
  from lit [OF this] obtain r where "u @ rest = P @ r"
    by (auto simp: strip_prefix_iff)
  then obtain us where "(u = P @ us \<and> us @ rest = r) \<or> (u @ us = P \<and> rest = us @ r)"
    by (auto simp: append_eq_append_conv2)
  then show False
  proof
    assume "u = P @ us \<and> us @ rest = r"
    with u show False by (simp add: strip_prefix_None_iff)
  next
    assume a: "u @ us = P \<and> rest = us @ r"
    from a u have "us \<noteq> []" by (auto simp: strip_prefix_None_iff)
    with a ne have "rest \<noteq> []" "hd rest \<in> set (tl P)" by (cases u; cases us; auto)+
    with rest show False by simp
  qed
qed

lemma findall_skip:
  assumes lit: "\<And>s x. m s = Some x \<Longrightarrow> strip_prefix P s \<noteq> None"
    and f: "\<not> contains P f"
    and rest: "rest = [] \<or> hd rest \<notin> set (tl P)"
  shows "findall m (f @ rest) = findall m rest"
  using f
proof (induction f)
  case Nil
  show ?case by simp
next
  case (Cons c f)
  then have "strip_prefix P (c # f) = None" and nf: "\<not> contains P f" by auto
  from no_match_across [OF lit this(1) _ rest] have "m (c # f @ rest) = None" by simp
  then have "findall m ((c # f) @ rest) = findall m (f @ rest)" by (simp add: findall_miss)
  with Cons.IH [OF nf] show ?case by simp
qed

lemma method_pattern_literal:
  "method_pattern s = Some x \<Longrightarrow> strip_prefix ''addMethod('' s \<noteq> None"
  by (auto simp: method_pattern_def split: option.splits)

lemma method_pattern_Nil [simp]: "method_pattern [] = None"
  by (simp add: method_pattern_def)

lemma registration_head:
  "registration ws r @ rest = [] \<or> hd (registration ws r @ rest) \<notin> set (tl ''addMethod('')"
  by (simp add: registration_def)

lemma findall_registration:
  assumes "\<not> contains ''addMethod('' f" "\<forall>c\<in>set ws. is_space c" "r \<noteq> []" "DQ \<notin> set r"
  shows "findall method_pattern (f @ registration ws r @ rest) = r # findall method_pattern rest"
proof -
  have "findall method_pattern (f @ registration ws r @ rest)
          = findall method_pattern (registration ws r @ rest)"
    using assms(1) by (intro findall_skip [OF method_pattern_literal]) (simp_all add: registration_def)
  also have "\<dots> = r # findall method_pattern rest"
    using method_pattern_registration [OF assms(2-4)]
    by (rule findall_hit) (simp add: registration_def)
  finally show ?thesis .
qed

lemma findall_method_tail:
  assumes "\<not> contains ''addMethod('' f"
  shows "findall method_pattern f = []"
proof -
  have "findall method_pattern (f @ []) = findall method_pattern []"
    using assms by (intro findall_skip [OF method_pattern_literal]) simp_all
  then show ?thesis by (simp add: findall_Nil)
qed

lemma check_cheatcodes_printed:
  assumes "fs cheatcode_source = Some (File content)"
    and "fs cheatcode_interface \<noteq> Some Unreadable"
  shows "\<exists>c'. check_cheatcodes fs c = Inr c'
           \<and> printed c' = printed c @
                [Checking ''cheatcodes'',
                 Found_cheatcodes (length (cheatcodes_in content))
                   (length (base_methods_of (cheatcodes_in content)))]"
proof (cases "fs cheatcode_interface")
  case None
  with assms(1) show ?thesis
    by (simp add: check_cheatcodes_def extract_cheatcodes_def and_then_def
        validate_cheatcodes_in_interface_def add_error_def print_line_def)
next
  case (Some nd)
  with assms(2) obtain d where "fs cheatcode_interface = Some (File d)" by (cases nd) auto
  with assms(1) show ?thesis
    by (simp add: check_cheatcodes_def extract_cheatcodes_def and_then_def
        validate_cheatcodes_readable print_line_def)
qed

subsection \<open>Flag patterns, field matches and the scan of the structs\<close>

lemma field_pattern_Some:
  assumes "field_pattern s = Some ((g, t, j), r)"
  shows "g \<noteq> [] \<and> t \<noteq> [] \<and> j \<noteq> [] \<and> DQ \<notin> set j"
proof -
  from assms obtain r4 where "g = takeWhile is_word s" "g \<noteq> []" "t \<noteq> []"
    and q: "quoted r4 = Some (j, r)"
    by (auto simp: field_pattern_def Let_def split: if_splits option.splits)
  with quoted_Some [OF q] show ?thesis by simp
qed

lemma field_matches_named:
  "m \<in> set (findall field_pattern body) \<Longrightarrow> fst m \<noteq> [] \<and> snd (snd m) \<noteq> []"
proof -
  assume "m \<in> set (findall field_pattern body)"
  from findall_source [OF this] obtain s' r where s': "field_pattern s' = Some (m, r)" by blast
  obtain g t j where m: "m = (g, t, j)" by (cases m) auto
  from s' have "field_pattern s' = Some ((g, t, j), r)" unfolding m .
  from field_pattern_Some [OF this] show ?thesis unfolding m by simp
qed

lemma add_field_pure:
  "fst m \<noteq> [] \<Longrightarrow>
   add_field struct_name flds m =
     Inr (if extractable m then dict_set flds (field_key m) struct_name else flds)"
  by (cases m; cases "fst m") (auto simp: extractable_def field_key_def)

lemma add_fields_pure:
  "\<forall>m\<in>set ms. fst m \<noteq> [] \<Longrightarrow>
   add_fields struct_name flds ms =
     Inr (put_keys struct_name (map field_key (filter extractable ms)) flds)"
  by (induction ms arbitrary: flds) (simp_all add: add_field_pure put_keys_def)

lemma scan_structs_pure:
  "scan_structs content flds names =
     Inr (fold (\<lambda>sn d. put_keys sn (struct_keys content sn) d) names flds)"
proof (induction names arbitrary: flds)
  case Nil
  show ?case by simp
next
  case (Cons sn names)
  show ?case
  proof (cases "re_search (struct_pattern sn) content")
    case None
    then show ?thesis by (simp add: Cons struct_keys_def put_keys_def)
  next
    case (Some body)
    have "add_fields sn flds (findall field_pattern body)
            = Inr (put_keys sn (struct_keys content sn) flds)"
      using Some field_matches_named by (simp add: add_fields_pure struct_keys_def)
    with Some show ?thesis by (simp add: Cons)
  qed
qed

lemma map_of_dict_set [simp]: "map_of (dict_set d k v) = (map_of d)(k \<mapsto> v)"
  by (induction d k v rule: dict_set.induct) (auto simp: fun_eq_iff)

lemma keys_dict_set [simp]: "fst ` set (dict_set d k v) = insert k (fst ` set d)"
  by (induction d k v rule: dict_set.induct) auto

lemma distinct_dict_set [simp]:
  "distinct (map fst (dict_set d k v)) = distinct (map fst d)"
  by (induction d k v rule: dict_set.induct) auto

lemma map_of_put_keys:
  "map_of (put_keys sn ks d) k = (if k \<in> set ks then Some sn else map_of d k)"
  unfolding put_keys_def by (induction ks arbitrary: d) auto

lemma distinct_put_keys [simp]:
  "distinct (map fst (put_keys sn ks d)) = distinct (map fst d)"
  unfolding put_keys_def by (induction ks arbitrary: d) auto

lemma map_of_scan:
  "map_of (fold (\<lambda>sn d. put_keys sn (struct_keys content sn) d) names d) k =
     (case filter (\<lambda>sn. k \<in> set (struct_keys content sn)) names of
        [] \<Rightarrow> map_of d k
      | x # xs \<Rightarrow> Some (last (x # xs)))"
proof (induction names arbitrary: d)
  case Nil
  show ?case by simp
next
  case (Cons sn names)
  show ?case
    by (simp add: Cons map_of_put_keys split: list.splits)
qed

lemma distinct_scan:
  "distinct (map fst (fold (\<lambda>sn d. put_keys sn (struct_keys content sn) d) names d))
     = distinct (map fst d)"
  by (induction names arbitrary: d) auto

lemma scanned_entry:
  assumes "scan_structs content [] names = Inr flds" "(k, sn) \<in> set flds"
  shows "sn \<in> set names \<and> k \<in> set (struct_keys content sn)"
proof -
  let ?xs = "filter (\<lambda>sn. k \<in> set (struct_keys content sn)) names"
  from assms(1) have f: "flds = fold (\<lambda>sn d. put_keys sn (struct_keys content sn) d) names []"
    by (simp add: scan_structs_pure)
  then have "distinct (map fst flds)" by (simp add: distinct_scan)
  with assms(2) have "map_of flds k = Some sn" by simp
  then have "(case ?xs of [] \<Rightarrow> map_of [] k | x # xs \<Rightarrow> Some (last (x # xs))) = Some sn"
    unfolding f map_of_scan .
  then have "?xs \<noteq> []" "sn = last ?xs" by (auto split: list.splits)
  then have "sn \<in> set ?xs" using last_in_set by blast
  then show ?thesis by simp
qed

lemma struct_key_source:
  assumes "k \<in> set (struct_keys content sn)"
  shows "\<exists>body g t j. re_search (struct_pattern sn) content = Some body
           \<and> (g, t, j) \<in> set (findall field_pattern body)
           \<and> extractable (g, t, j) \<and> k = split_first (CHR '','') j"
proof (cases "re_search (struct_pattern sn) content")
  case None
  with assms show ?thesis by (simp add: struct_keys_def)
next
  case (Some body)
  with assms obtain m where m: "m \<in> set (findall field_pattern body)" "extractable m"
    "k = field_key m"
    by (auto simp: struct_keys_def)
  obtain g t j where "m = (g, t, j)" by (cases m) auto
  with m Some show ?thesis by (auto simp: field_key_def)
qed

lemma typed_alternatives_Some:
  "typed_alternatives ts s = Some (g, r) \<Longrightarrow>
   \<exists>t\<in>set ts. s = t @ [CHR ''('', DQ] @ g @ DQ # r \<and> g \<noteq> [] \<and> DQ \<notin> set g"
proof (induction ts)
  case Nil
  then show ?case by simp
next
  case (Cons t ts)
  show ?case
  proof (cases "strip_prefix (t @ [CHR ''('', DQ]) s")
    case None
    with Cons show ?thesis by simp
  next
    case (Some r0)
    show ?thesis
    proof (cases "quoted r0")
      case None
      with Some Cons show ?thesis by simp
    next
      case q: (Some res)
      with Some Cons.prems have "quoted r0 = Some (g, r)" by simp
      from quoted_Some [OF this] Some show ?thesis by (simp add: strip_prefix_iff)
    qed
  qed
qed

lemma typed_flag_pattern_Some:
  assumes "typed_flag_pattern s = Some (g, r)"
  shows "\<exists>t\<in>set flag_types. s = ''.Flags().'' @ t @ [CHR ''('', DQ] @ g @ DQ # r
            \<and> g \<noteq> [] \<and> DQ \<notin> set g"
proof -
  from assms obtain r0 where a: "strip_prefix ''.Flags().'' s = Some r0"
    and b: "typed_alternatives flag_types r0 = Some (g, r)"
    by (auto simp: typed_flag_pattern_def split: option.splits)
  from a have "s = ''.Flags().'' @ r0" by (simp only: strip_prefix_iff)
  with typed_alternatives_Some [OF b] show ?thesis by auto
qed

lemma countp_flag_pattern_Some:
  assumes "countp_flag_pattern s = Some ((l, sh), r)"
  shows "l \<noteq> [] \<and> DQ \<notin> set l \<and> sh \<noteq> [] \<and> DQ \<notin> set sh"
proof -
  from assms obtain r0 r1 r2 r3 where "quoted r0 = Some (l, r1)" "quoted r3 = Some (sh, r)"
    by (auto simp: countp_flag_pattern_def split: option.splits)
  then show ?thesis using quoted_Some by blast
qed

lemma flags_in_nonempty:
  assumes "f \<in> set (flags_in content)"
  shows "f \<noteq> []"
proof -
  from assms consider "f \<in> set (findall typed_flag_pattern content)"
    | "f \<in> fst ` set (findall countp_flag_pattern content)"
    by (auto simp: flags_in_def)
  then show ?thesis
  proof cases
    case 1
    from findall_source [OF 1] obtain s r where "typed_flag_pattern s = Some (f, r)" by blast
    from typed_flag_pattern_Some [OF this] show ?thesis by blast
  next
    case 2
    then obtain sh where "(f, sh) \<in> set (findall countp_flag_pattern content)" by auto
    from findall_source [OF this] obtain s r where "countp_flag_pattern s = Some ((f, sh), r)"
      by blast
    from countp_flag_pattern_Some [OF this] show ?thesis by blast
  qed
qed

lemma base_method_source:
  assumes "b \<in> set (base_methods_of (cheatcodes_in content))"
  shows "CHR ''('' \<notin> set b
       \<and> (\<exists>r\<in>set (cheatcodes_in content). r \<noteq> [] \<and> b = split_first (CHR ''('') r
             \<and> (hd r \<noteq> CHR ''('' \<longrightarrow> b \<noteq> []))"
proof -
  from assms obtain r where r: "r \<in> set (cheatcodes_in content)" "b = split_first (CHR ''('') r"
    by (auto simp: base_methods_of_def)
  from r(1) have "r \<in> set (findall method_pattern content)" by (simp add: cheatcodes_in_def)
  from findall_source [OF this] obtain s t where "method_pattern s = Some (r, t)" by blast
  from method_pattern_Some [OF this] have ne: "r \<noteq> []" by blast
  have "CHR ''('' \<notin> set b" using r(2) by (auto simp: split_first_def dest: set_takeWhileD)
  moreover have "hd r \<noteq> CHR ''('' \<longrightarrow> b \<noteq> []"
    using ne r(2) by (simp add: split_first_def takeWhile_eq_Nil_iff)
  ultimately show ?thesis using r ne by blast
qed

lemma config_entry_source:
  assumes "extract_config_fields fs source_file struct_names c = Inr (flds, c')"
    and "(k, sn) \<in> set flds"
  shows "\<exists>content body g t j. fs source_file = Some (File content) \<and> sn \<in> set struct_names
           \<and> re_search (struct_pattern sn) content = Some body
           \<and> (g, t, j) \<in> set (findall field_pattern body)
           \<and> extractable (g, t, j) \<and> j \<noteq> [] \<and> k = split_first (CHR '','') j"
proof -
  from assms obtain content where src: "fs source_file = Some (File content)"
    and scan: "scan_structs content [] struct_names = Inr flds"
    by (auto simp: extract_config_fields_def and_then_def
        split: option.splits node.splits sum.splits)
  from scanned_entry [OF scan assms(2)]
  have sn: "sn \<in> set struct_names" and k: "k \<in> set (struct_keys content sn)" by blast+
  from struct_key_source [OF k] obtain body g t j where
    b: "re_search (struct_pattern sn) content = Some body"
    "(g, t, j) \<in> set (findall field_pattern body)" "extractable (g, t, j)"
    "k = split_first (CHR '','') j"
    by blast
  from field_matches_named [OF b(2)] have "j \<noteq> []" by simp
  with src sn b show ?thesis by blast
qed

lemma single_entry:
  "distinct (map fst d) \<Longrightarrow> map_of d k = Some v \<Longrightarrow> filter (\<lambda>e. fst e = k) d = [(k, v)]"
proof (induction d)
  case Nil
  then show ?case by simp
next
  case (Cons e d)
  show ?case
  proof (cases "fst e = k")
    case True
    with Cons.prems have "k \<notin> fst ` set d" by simp
    then have "\<forall>x\<in>set d. fst x \<noteq> k" by force
    then have "filter (\<lambda>e. fst e = k) d = []" by (simp add: filter_empty_conv)
    with True Cons.prems show ?thesis by (cases e) auto
  next
    case False
    with Cons show ?thesis by (cases e) auto
  qed
qed

lemma at_most_one_entry:
  "distinct (map fst d) \<Longrightarrow> length (filter (\<lambda>e. fst e = k) d) \<le> 1"
proof (cases "map_of d k")
  case None
  then have "\<forall>x\<in>set d. fst x \<noteq> k" by (auto simp: map_of_eq_None_iff)
  then have "filter (\<lambda>e. fst e = k) d = []" by (simp add: filter_empty_conv)
  then show ?thesis by simp
next
  case (Some v)
  assume "distinct (map fst d)"
  from single_entry [OF this Some] show ?thesis by simp
qed

lemma last_snoc_case:
  "(case ys @ [z] of [] \<Rightarrow> None | x # xs \<Rightarrow> Some (last (x # xs))) = Some z"
  by (cases ys) auto

lemma extract_config_readable:
  "fs source_file = Some (File content) \<Longrightarrow>
   extract_config_fields fs source_file struct_names c =
     Inr (fold (\<lambda>sn d. put_keys sn (struct_keys content sn) d) struct_names [], c)"
  by (simp add: extract_config_fields_def scan_structs_pure and_then_def)

lemma struct_keys_iff:
  "k \<in> set (struct_keys content s) \<longleftrightarrow>
     (\<exists>body g t j. re_search (struct_pattern s) content = Some body
        \<and> (g, t, j) \<in> set (findall field_pattern body)
        \<and> extractable (g, t, j) \<and> k = split_first (CHR '','') j)"
proof
  assume "k \<in> set (struct_keys content s)"
  then show "\<exists>body g t j. re_search (struct_pattern s) content = Some body
        \<and> (g, t, j) \<in> set (findall field_pattern body)
        \<and> extractable (g, t, j) \<and> k = split_first (CHR '','') j"
    by (rule struct_key_source)
next
  assume "\<exists>body g t j. re_search (struct_pattern s) content = Some body
        \<and> (g, t, j) \<in> set (findall field_pattern body)
        \<and> extractable (g, t, j) \<and> k = split_first (CHR '','') j"
  then obtain body g t j where b: "re_search (struct_pattern s) content = Some body"
    and m: "(g, t, j) \<in> set (findall field_pattern body)" "extractable (g, t, j)"
    and k: "k = split_first (CHR '','') j"
    by blast
  from m have "field_key (g, t, j) \<in> set (map field_key (filter extractable (findall field_pattern body)))"
    by auto
  with b k show "k \<in> set (struct_keys content s)"
    by (simp add: struct_keys_def field_key_def)
qed

subsection \<open>The flag patterns on a text of declarations\<close>

lemma contains_prefix_part: "contains (p @ q) h \<Longrightarrow> contains p h"
proof -
  assume "contains (p @ q) h"
  then obtain a b where "h = a @ (p @ q) @ b" unfolding contains_iff by blast
  then have "h = a @ p @ (q @ b)" by simp
  then show ?thesis unfolding contains_iff by blast
qed

lemma contains_Cons_tail: "contains n h \<Longrightarrow> contains n (c # h)"
  by simp

lemma contains_first_char:
  assumes "contains (c # n) h"
  shows "c \<in> set h"
proof -
  from assms obtain a b where "h = a @ (c # n) @ b" unfolding contains_iff by blast
  then show ?thesis by simp
qed

text \<open>A needle without the character \<open>c\<close> that occurs in \<open>a @ c # b\<close> occurs in \<open>a\<close> or
  in \<open>b\<close>.\<close>

lemma contains_split:
  assumes "c \<notin> set n" "contains n (a @ c # b)"
  shows "contains n a \<or> contains n b"
proof -
  from assms(2) obtain x y where e: "a @ c # b = x @ n @ y" unfolding contains_iff by blast
  then obtain us where "(a = x @ us \<and> us @ c # b = n @ y) \<or> (a @ us = x \<and> c # b = us @ n @ y)"
    by (auto simp: append_eq_append_conv2)
  then show ?thesis
  proof
    assume l: "a = x @ us \<and> us @ c # b = n @ y"
    then obtain vs where "(us = n @ vs \<and> vs @ c # b = y) \<or> (us @ vs = n \<and> c # b = vs @ y)"
      by (auto simp: append_eq_append_conv2)
    then show ?thesis
    proof
      assume "us = n @ vs \<and> vs @ c # b = y"
      with l have "a = x @ n @ vs" by simp
      then show ?thesis unfolding contains_iff by blast
    next
      assume r: "us @ vs = n \<and> c # b = vs @ y"
      show ?thesis
      proof (cases vs)
        case Nil
        with r l have "a = x @ n @ []" by simp
        then show ?thesis unfolding contains_iff by blast
      next
        case (Cons v vs')
        with r have "c \<in> set n" by auto
        with assms(1) show ?thesis by simp
      qed
    qed
  next
    assume r: "a @ us = x \<and> c # b = us @ n @ y"
    show ?thesis
    proof (cases us)
      case Nil
      with r have "c # b = n @ y" by simp
      with assms(1) have "n = []" by (cases n) auto
      then show ?thesis by (cases a) simp_all
    next
      case (Cons u us')
      with r have "b = us' @ n @ y" by simp
      then show ?thesis unfolding contains_iff by blast
    qed
  qed
qed

lemma split_match:
  assumes "u @ rest = H @ r"
  shows "(\<exists>us. u = H @ us) \<or> (\<exists>us. us \<noteq> [] \<and> u @ us = H \<and> rest = us @ r)"
proof -
  from assms obtain us where "(u = H @ us \<and> us @ rest = r) \<or> (u @ us = H \<and> rest = us @ r)"
    by (auto simp: append_eq_append_conv2)
  then show ?thesis by (cases us) auto
qed

lemma occurs_at_front: "u = H @ us \<Longrightarrow> contains H u"
proof -
  assume "u = H @ us"
  then have "u = [] @ H @ us" by simp
  then show ?thesis unfolding contains_iff by blast
qed

lemma no_match_in_segment:
  assumes lit: "\<And>s x. m s = Some x \<Longrightarrow> \<exists>H\<in>set Hs. strip_prefix H s \<noteq> None"
    and free: "\<forall>H\<in>set Hs. \<not> contains H u"
    and last: "\<forall>H\<in>set Hs. last u \<notin> set H"
    and ne: "u \<noteq> []"
  shows "m (u @ rest) = None"
proof (rule ccontr)
  assume "m (u @ rest) \<noteq> None"
  then obtain x where "m (u @ rest) = Some x" by blast
  from lit [OF this] obtain H r where H: "H \<in> set Hs" "u @ rest = H @ r"
    by (auto simp: strip_prefix_iff)
  from split_match [OF H(2)] show False
  proof
    assume "\<exists>us. u = H @ us"
    then have "contains H u" using occurs_at_front by blast
    with free H(1) show False by blast
  next
    assume "\<exists>us. us \<noteq> [] \<and> u @ us = H \<and> rest = us @ r"
    then obtain us where "u @ us = H" by blast
    with ne have "last u \<in> set H" by auto
    with last H(1) show False by blast
  qed
qed

lemma findall_skip_segment:
  assumes lit: "\<And>s x. m s = Some x \<Longrightarrow> \<exists>H\<in>set Hs. strip_prefix H s \<noteq> None"
    and free: "\<forall>H\<in>set Hs. \<not> contains H seg"
    and last: "\<forall>H\<in>set Hs. last seg \<notin> set H"
  shows "findall m (seg @ rest) = findall m rest"
  using free last
proof (induction seg)
  case Nil
  show ?case by simp
next
  case (Cons c f)
  have "c # f \<noteq> []" by simp
  with lit Cons.prems have "m ((c # f) @ rest) = None"
    by (rule no_match_in_segment)
  then have step: "findall m ((c # f) @ rest) = findall m (f @ rest)"
    by (simp add: findall_miss)
  show ?case
  proof (cases f)
    case Nil
    with step show ?thesis by simp
  next
    case f: (Cons d f')
    from Cons.prems f have "\<forall>H\<in>set Hs. \<not> contains H f" "\<forall>H\<in>set Hs. last f \<notin> set H"
      by auto
    from Cons.IH [OF this] step show ?thesis by simp
  qed
qed

lemma no_match_in_filler:
  assumes lit: "\<And>s x. m s = Some x \<Longrightarrow> \<exists>H\<in>set Hs. strip_prefix H s \<noteq> None"
    and free: "\<forall>H\<in>set Hs. \<not> contains H u"
    and border: "\<forall>H\<in>set Hs. H \<noteq> [] \<and> last H \<noteq> a \<and> \<not> contains [a, b] (tl H)"
    and rest: "rest = [] \<or> (\<exists>r'. rest = a # b # r')"
    and ne: "u \<noteq> []"
  shows "m (u @ rest) = None"
proof (rule ccontr)
  assume "m (u @ rest) \<noteq> None"
  then obtain x where "m (u @ rest) = Some x" by blast
  from lit [OF this] obtain H r where H: "H \<in> set Hs" "u @ rest = H @ r"
    by (auto simp: strip_prefix_iff)
  from split_match [OF H(2)] show False
  proof
    assume "\<exists>us. u = H @ us"
    then have "contains H u" using occurs_at_front by blast
    with free H(1) show False by blast
  next
    assume "\<exists>us. us \<noteq> [] \<and> u @ us = H \<and> rest = us @ r"
    then obtain us where us: "us \<noteq> []" "u @ us = H" "rest = us @ r" by blast
    with rest obtain r' where r': "us @ r = a # b # r'" by auto
    from us(1) r' obtain us1 where u1: "us = a # us1" by (cases us) auto
    show False
    proof (cases us1)
      case Nil
      with u1 us(2) have "last H = a" by auto
      with border H(1) show False by blast
    next
      case (Cons u2 us2)
      with u1 r' have "us = [a, b] @ us2" by simp
      with us(2) ne have "tl H = tl u @ [a, b] @ us2" by (cases u) auto
      then have "contains [a, b] (tl H)" unfolding contains_iff by blast
      with border H(1) show False by blast
    qed
  qed
qed

lemma findall_skip_filler:
  assumes lit: "\<And>s x. m s = Some x \<Longrightarrow> \<exists>H\<in>set Hs. strip_prefix H s \<noteq> None"
    and free: "\<forall>H\<in>set Hs. \<not> contains H f"
    and border: "\<forall>H\<in>set Hs. H \<noteq> [] \<and> last H \<noteq> a \<and> \<not> contains [a, b] (tl H)"
    and rest: "rest = [] \<or> (\<exists>r'. rest = a # b # r')"
  shows "findall m (f @ rest) = findall m rest"
  using free
proof (induction f)
  case Nil
  show ?case by simp
next
  case (Cons c f)
  have "c # f \<noteq> []" by simp
  with lit Cons.prems border rest have "m ((c # f) @ rest) = None"
    by (rule no_match_in_filler)
  then have "findall m ((c # f) @ rest) = findall m (f @ rest)"
    by (simp add: findall_miss)
  moreover from Cons.prems have "\<forall>H\<in>set Hs. \<not> contains H f" by auto
  ultimately show ?case using Cons.IH by simp
qed

lemma typed_starts_with_head:
  assumes "typed_flag_pattern s = Some x"
  shows "\<exists>H\<in>set declaration_heads. strip_prefix H s \<noteq> None"
proof -
  obtain g r where "x = (g, r)" by (cases x) auto
  with typed_flag_pattern_Some [of s g r] assms obtain t where
    t: "t \<in> set flag_types" "s = (''.Flags().'' @ t @ [CHR ''('', DQ]) @ g @ DQ # r"
    by auto
  then have "strip_prefix (''.Flags().'' @ t @ [CHR ''('', DQ]) s \<noteq> None"
    by (simp only: strip_prefix_append) simp
  moreover from t(1) have "''.Flags().'' @ t @ [CHR ''('', DQ] \<in> set declaration_heads"
    by (simp add: declaration_heads_def)
  ultimately show ?thesis by blast
qed

lemma countp_starts_with_head:
  assumes "countp_flag_pattern s = Some x"
  shows "\<exists>H\<in>set declaration_heads. strip_prefix H s \<noteq> None"
proof -
  from assms have "strip_prefix (''.Flags().CountP('' @ [DQ]) s \<noteq> None"
    by (auto simp: countp_flag_pattern_def split: option.splits)
  moreover have "''.Flags().CountP('' @ [DQ] \<in> set declaration_heads"
    by (simp add: declaration_heads_def)
  ultimately show ?thesis by blast
qed

lemma typed_starts_with_call:
  assumes "typed_flag_pattern s = Some x"
  shows "\<exists>H\<in>set (map (\<lambda>t. ''.Flags().'' @ t @ ''('') flag_types). strip_prefix H s \<noteq> None"
proof -
  obtain g r where "x = (g, r)" by (cases x) auto
  with typed_flag_pattern_Some [of s g r] assms obtain t where
    t: "t \<in> set flag_types" "s = (''.Flags().'' @ t @ ''('') @ DQ # g @ DQ # r"
    by auto
  then have "strip_prefix (''.Flags().'' @ t @ ''('') s \<noteq> None"
    by (simp only: strip_prefix_append) simp
  with t(1) show ?thesis by auto
qed

lemma countp_starts_with_call:
  assumes "countp_flag_pattern s = Some x"
  shows "\<exists>H\<in>set [''.Flags().CountP(''] . strip_prefix H s \<noteq> None"
proof -
  from assms obtain r where "strip_prefix (''.Flags().CountP('' @ [DQ]) s = Some r"
    by (auto simp: countp_flag_pattern_def split: option.splits)
  then have "s = ''.Flags().CountP('' @ (DQ # r)" by (simp only: strip_prefix_iff) simp
  then have "strip_prefix ''.Flags().CountP('' s \<noteq> None"
    by (simp only: strip_prefix_append) simp
  then show ?thesis by simp
qed

lemma heads_border:
  "\<forall>H\<in>set declaration_heads.
     H \<noteq> [] \<and> last H \<noteq> CHR ''.'' \<and> \<not> contains [CHR ''.'', CHR ''F''] (tl H)"
  by (simp add: declaration_heads_def flag_types_def)

lemma decl_text_start: "\<exists>r'. decl_text d @ rest = CHR ''.'' # CHR ''F'' # r'"
  by (cases d) simp_all

lemma filler_free: "filler f \<Longrightarrow> \<forall>H\<in>set declaration_heads. \<not> contains H f"
  by (simp add: filler_def list_all_iff)

lemma findall_typed_filler:
  assumes "filler f"
  shows "findall typed_flag_pattern (f @ decl_text d @ rest)
           = findall typed_flag_pattern (decl_text d @ rest)"
    and "findall typed_flag_pattern f = []"
proof -
  show "findall typed_flag_pattern (f @ decl_text d @ rest)
           = findall typed_flag_pattern (decl_text d @ rest)"
    using typed_starts_with_head filler_free [OF assms] heads_border
  proof (rule findall_skip_filler)
    show "decl_text d @ rest = [] \<or> (\<exists>r'. decl_text d @ rest = CHR ''.'' # CHR ''F'' # r')"
      using decl_text_start by blast
  qed
  have "findall typed_flag_pattern (f @ []) = findall typed_flag_pattern []"
    using typed_starts_with_head filler_free [OF assms] heads_border
  proof (rule findall_skip_filler)
    show "[] = [] \<or> (\<exists>r'. [] = CHR ''.'' # CHR ''F'' # r')" by (rule disjI1) (rule refl)
  qed
  then show "findall typed_flag_pattern f = []"
    by (simp add: findall_Nil typed_flag_pattern_def)
qed

lemma findall_countp_filler:
  assumes "filler f"
  shows "findall countp_flag_pattern (f @ decl_text d @ rest)
           = findall countp_flag_pattern (decl_text d @ rest)"
    and "findall countp_flag_pattern f = []"
proof -
  show "findall countp_flag_pattern (f @ decl_text d @ rest)
           = findall countp_flag_pattern (decl_text d @ rest)"
    using countp_starts_with_head filler_free [OF assms] heads_border
  proof (rule findall_skip_filler)
    show "decl_text d @ rest = [] \<or> (\<exists>r'. decl_text d @ rest = CHR ''.'' # CHR ''F'' # r')"
      using decl_text_start by blast
  qed
  have "findall countp_flag_pattern (f @ []) = findall countp_flag_pattern []"
    using countp_starts_with_head filler_free [OF assms] heads_border
  proof (rule findall_skip_filler)
    show "[] = [] \<or> (\<exists>r'. [] = CHR ''.'' # CHR ''F'' # r')" by (rule disjI1) (rule refl)
  qed
  then show "findall countp_flag_pattern f = []"
    by (simp add: findall_Nil countp_flag_pattern_def)
qed

lemma name_free_of_call:
  assumes "valid_name n"
  shows "\<not> contains (''.Flags().'' @ t @ ''('') n"
proof
  assume "contains (''.Flags().'' @ t @ ''('') n"
  then have "contains ''.Flags().'' n" by (rule contains_prefix_part)
  with assms show False by (simp add: valid_name_def)
qed

lemma dot_not_space: "\<not> is_space (CHR ''.'')"
  by (simp add: is_space_def)

lemma call_not_in_gap:
  assumes "list_all is_space ws"
  shows "\<not> contains (''.Flags().'' @ t @ ''('') ('','' @ ws)"
proof
  assume "contains (''.Flags().'' @ t @ ''('') ('','' @ ws)"
  then have "contains (CHR ''.'' # (''Flags().'' @ t @ ''('')) ('','' @ ws)" by simp
  then have "CHR ''.'' \<in> set ('','' @ ws)" by (rule contains_first_char)
  with assms dot_not_space show False by (auto simp: list_all_iff)
qed

lemma flag_type_no_quote: "t \<in> set flag_types \<Longrightarrow> DQ \<notin> set (''.Flags().'' @ t @ ''('')"
  by (auto simp: flag_types_def)

lemma typed_call_not_in_countp_call:
  "t \<in> set flag_types \<Longrightarrow> \<not> contains (''.Flags().'' @ t @ ''('') ''.Flags().CountP(''"
  by (auto simp: flag_types_def)

lemma countp_call_not_in_typed_call:
  "t \<in> set flag_types \<Longrightarrow> \<not> contains ''.Flags().CountP('' (''.Flags().'' @ t @ ''('')"
  by (auto simp: flag_types_def)

lemma typed_call_not_in_countp_decl:
  assumes "t \<in> set flag_types" "valid_name l" "valid_name sh" "list_all is_space ws"
  shows "\<not> contains (''.Flags().'' @ t @ ''('') (decl_text (CountP l ws sh))"
proof
  let ?H = "''.Flags().'' @ t @ ''(''"
  assume c: "contains ?H (decl_text (CountP l ws sh))"
  have nq: "DQ \<notin> set ?H" using assms(1) by (rule flag_type_no_quote)
  have "decl_text (CountP l ws sh)
      = ''.Flags().CountP('' @ DQ # (l @ DQ # (('','' @ ws) @ DQ # (sh @ DQ # [])))"
    by simp
  with c have "contains ?H (''.Flags().CountP('' @ DQ # (l @ DQ # (('','' @ ws) @ DQ # (sh @ DQ # []))))"
    by (simp only:)
  from contains_split [OF nq this] typed_call_not_in_countp_call [OF assms(1)]
  have "contains ?H (l @ DQ # (('','' @ ws) @ DQ # (sh @ DQ # [])))" by blast
  from contains_split [OF nq this] name_free_of_call [OF assms(2)]
  have "contains ?H (('','' @ ws) @ DQ # (sh @ DQ # []))" by blast
  from contains_split [OF nq this] call_not_in_gap [OF assms(4)]
  have "contains ?H (sh @ DQ # [])" by blast
  from contains_split [OF nq this] name_free_of_call [OF assms(3)]
  have "contains ?H []" by blast
  then show False by simp
qed

lemma countp_call_not_in_typed_decl:
  assumes "t \<in> set flag_types" "valid_name n"
  shows "\<not> contains ''.Flags().CountP('' (decl_text (Typed t n))"
proof
  let ?H = "''.Flags().CountP(''"
  assume c: "contains ?H (decl_text (Typed t n))"
  have nq: "DQ \<notin> set ?H" by simp
  have "decl_text (Typed t n) = (''.Flags().'' @ t @ ''('') @ DQ # (n @ DQ # [])"
    by simp
  with c have "contains ?H ((''.Flags().'' @ t @ ''('') @ DQ # (n @ DQ # []))"
    by (simp only:)
  from contains_split [OF nq this] countp_call_not_in_typed_call [OF assms(1)]
  have "contains ?H (n @ DQ # [])" by blast
  from contains_split [OF nq this] name_free_of_call [OF assms(2), of "''CountP''"]
  have "contains ?H []" by simp
  then show False by simp
qed

lemma last_decl_text: "last (decl_text d) = DQ"
  by (cases d) simp_all

lemma typed_skips_countp:
  assumes "valid_name l" "valid_name sh" "list_all is_space ws"
  shows "findall typed_flag_pattern (decl_text (CountP l ws sh) @ rest)
           = findall typed_flag_pattern rest"
  using typed_starts_with_call
proof (rule findall_skip_segment)
  show "\<forall>H\<in>set (map (\<lambda>t. ''.Flags().'' @ t @ ''('') flag_types).
          \<not> contains H (decl_text (CountP l ws sh))"
    using assms typed_call_not_in_countp_decl by auto
  show "\<forall>H\<in>set (map (\<lambda>t. ''.Flags().'' @ t @ ''('') flag_types).
          last (decl_text (CountP l ws sh)) \<notin> set H"
    using flag_type_no_quote by (auto simp only: last_decl_text set_map)
qed

lemma countp_skips_typed:
  assumes "t \<in> set flag_types" "valid_name n"
  shows "findall countp_flag_pattern (decl_text (Typed t n) @ rest)
           = findall countp_flag_pattern rest"
  using countp_starts_with_call
proof (rule findall_skip_segment)
  show "\<forall>H\<in>set [''.Flags().CountP(''] . \<not> contains H (decl_text (Typed t n))"
    using assms countp_call_not_in_typed_decl by simp
  show "\<forall>H\<in>set [''.Flags().CountP(''] . last (decl_text (Typed t n)) \<notin> set H"
    by (simp only: last_decl_text) simp
qed

lemma typed_hit:
  assumes "t \<in> set flag_types" "valid_name n"
  shows "typed_flag_pattern (decl_text (Typed t n) @ rest) = Some (n, rest)"
proof -
  have q: "quoted (n @ DQ # rest) = Some (n, rest)"
    using assms(2) by (simp add: valid_name_def quoted_append)
  from assms(1) consider "t = ''String''" | "t = ''Int''" | "t = ''Bool''" | "t = ''Uint64''"
    | "t = ''StringSlice''"
    by (auto simp: flag_types_def)
  then show ?thesis
    by cases (simp_all add: typed_flag_pattern_def flag_types_def q)
qed

lemma countp_hit:
  assumes "valid_name l" "valid_name sh" "list_all is_space ws"
  shows "countp_flag_pattern (decl_text (CountP l ws sh) @ rest) = Some ((l, sh), rest)"
proof -
  have q1: "quoted (l @ DQ # r) = Some (l, r)" for r
    using assms(1) by (simp add: valid_name_def quoted_append)
  have q2: "quoted (sh @ DQ # r) = Some (sh, r)" for r
    using assms(2) by (simp add: valid_name_def quoted_append)
  have sp: "spaces_quote (ws @ DQ # r) = Some r" for r
    using assms(3) by (simp add: spaces_quote_append list_all_iff)
  show ?thesis
    by (simp add: countp_flag_pattern_def q1 q2 sp)
qed

lemma decl_text_shorter: "length rest < length (decl_text d @ rest)"
  by (cases d) simp_all

lemma findall_typed_decl:
  assumes "valid_decl d"
  shows "findall typed_flag_pattern (decl_text d @ rest)
           = typed_part d @ findall typed_flag_pattern rest"
proof (cases d)
  case (Typed t n)
  with assms have "typed_flag_pattern (decl_text d @ rest) = Some (n, rest)"
    by (simp only: valid_decl.simps typed_hit)
  then have "findall typed_flag_pattern (decl_text d @ rest)
      = n # findall typed_flag_pattern rest"
    using decl_text_shorter [of rest d] by (rule findall_hit)
  with Typed show ?thesis by simp
next
  case (CountP l ws sh)
  with assms typed_skips_countp [of l sh ws rest] show ?thesis by simp
qed

lemma findall_countp_decl:
  assumes "valid_decl d"
  shows "findall countp_flag_pattern (decl_text d @ rest)
           = countp_part d @ findall countp_flag_pattern rest"
proof (cases d)
  case (Typed t n)
  with assms countp_skips_typed [of t n rest] show ?thesis by simp
next
  case (CountP l ws sh)
  with assms have "countp_flag_pattern (decl_text d @ rest) = Some ((l, sh), rest)"
    by (simp only: valid_decl.simps countp_hit)
  then have "findall countp_flag_pattern (decl_text d @ rest)
      = (l, sh) # findall countp_flag_pattern rest"
    using decl_text_shorter [of rest d] by (rule findall_hit)
  with CountP show ?thesis by simp
qed

lemma findall_typed_source:
  "well_formed ds fin \<Longrightarrow>
   findall typed_flag_pattern (source_text ds fin) = concat (map (typed_part \<circ> snd) ds)"
proof (induction ds)
  case Nil
  then show ?case by (simp add: well_formed_def findall_typed_filler)
next
  case (Cons a ds)
  obtain f d where a: "a = (f, d)" by (cases a) auto
  from Cons.prems a have w: "filler f" "valid_decl d" "well_formed ds fin"
    by (simp_all add: well_formed_def)
  show ?case
    by (simp add: a findall_typed_filler(1) [OF w(1)] findall_typed_decl [OF w(2)] Cons.IH [OF w(3)])
qed

lemma findall_countp_source:
  "well_formed ds fin \<Longrightarrow>
   findall countp_flag_pattern (source_text ds fin) = concat (map (countp_part \<circ> snd) ds)"
proof (induction ds)
  case Nil
  then show ?case by (simp add: well_formed_def findall_countp_filler)
next
  case (Cons a ds)
  obtain f d where a: "a = (f, d)" by (cases a) auto
  from Cons.prems a have w: "filler f" "valid_decl d" "well_formed ds fin"
    by (simp_all add: well_formed_def)
  show ?case
    by (simp add: a findall_countp_filler(1) [OF w(1)] findall_countp_decl [OF w(2)] Cons.IH [OF w(3)])
qed

lemma decl_parts: "set (typed_part d) \<union> fst ` set (countp_part d) = {decl_name d}"
  by (cases d) simp_all

lemma set_flags_in_source:
  assumes "well_formed ds fin"
  shows "set (flags_in (source_text ds fin)) = decl_name ` snd ` set ds"
proof -
  have "set (flags_in (source_text ds fin))
          = (\<Union>d\<in>snd ` set ds. set (typed_part d) \<union> fst ` set (countp_part d))"
    by (auto simp: flags_in_def findall_typed_source [OF assms] findall_countp_source [OF assms])
  then show ?thesis by (auto simp: decl_parts)
qed

lemma distinct_flags_in: "distinct (flags_in content)"
  by (simp add: flags_in_def)

subsection \<open>The lowered documentation text\<close>

text \<open>
  A lowered text has no upper-case letter, so a needle with one does not occur in it; a
  needle occurs in the lowered text exactly when some stretch of the text lowers to it.
\<close>

lemma lower_char_not_upper: "\<not> is_upper (lower_char x)"
  by (cases "x \<in> set upper_chars")
    (auto simp: lower_char_def is_upper_def upper_chars_def lower_chars_def)

lemma heading_test_misses_upper_case:
  assumes "c \<in> set field_name" "is_upper c"
  shows "\<not> contains (''## '' @ field_name) (py_lower doc_content)"
proof
  assume "contains (''## '' @ field_name) (py_lower doc_content)"
  then obtain a b where "py_lower doc_content = a @ (''## '' @ field_name) @ b"
    unfolding contains_iff by blast
  then have "set field_name \<subseteq> set (py_lower doc_content)" by auto
  with assms(1) obtain x where "c = lower_char x" by (auto simp: py_lower_def)
  with assms(2) lower_char_not_upper show False by simp
qed

lemma lowered_occurrence:
  "contains needle (py_lower doc_content) \<longleftrightarrow>
     (\<exists>a h b. doc_content = a @ h @ b \<and> py_lower h = needle)"
proof
  assume "contains needle (py_lower doc_content)"
  then obtain a' b' where "map lower_char doc_content = a' @ needle @ b'"
    unfolding contains_iff py_lower_def by blast
  then obtain a r where 1: "doc_content = a @ r" and 2: "needle @ b' = map lower_char r"
    unfolding map_eq_append_conv by blast
  from 2 [symmetric] obtain h b where "r = h @ b" "needle = map lower_char h"
    unfolding map_eq_append_conv by blast
  with 1 have "doc_content = a @ h @ b \<and> py_lower h = needle"
    by (simp add: py_lower_def)
  then show "\<exists>a h b. doc_content = a @ h @ b \<and> py_lower h = needle"
    by blast
next
  assume "\<exists>a h b. doc_content = a @ h @ b \<and> py_lower h = needle"
  then obtain a h b where "doc_content = a @ h @ b" "py_lower h = needle" by blast
  then have "py_lower doc_content = py_lower a @ needle @ py_lower b"
    by (simp add: py_lower_def)
  then show "contains needle (py_lower doc_content)"
    unfolding contains_iff by blast
qed

subsection \<open>The exit status\<close>

lemma main_after_checks: "run_checks fs = Inr c \<Longrightarrow> main fs = report c"
  by (simp add: main_def)

text \<open>
  C1. When the three checks have run and left the checker \<open>c\<close>, the process leaves with
  the status \<open>report c\<close>, which is 1 exactly when \<open>c\<close> holds an error and 0 exactly when it
  holds none, whatever warnings it holds.
\<close>

theorem exit_status_reflects_errors:
  assumes "run_checks fs = Inr c"
  shows "main fs = report c
       \<and> (report c = 1 \<longleftrightarrow> errors c \<noteq> [])
       \<and> (report c = 0 \<longleftrightarrow> errors c = [])
       \<and> report (c\<lparr>warnings := ws\<rparr>) = report c"
  using assms by (simp add: main_def report_def)

lemma run_checks_quiet_repo: "run_checks quiet_repo = Inr quiet_result"
  by code_simp

theorem exit_status_reflects_errors_witness:
  "run_checks quiet_repo = Inr quiet_result
     \<and> main quiet_repo = 0 \<and> warnings quiet_result \<noteq> [] \<and> errors quiet_result = []"
  using exit_status_reflects_errors [OF run_checks_quiet_repo, of "[]"] run_checks_quiet_repo
  by (simp add: quiet_result_def)

subsection \<open>Missing files\<close>

text \<open>
  C8. A source file that does not exist is recorded as an error by the flag extractor and by
  the cheatcode extractor and as a warning by the configuration field extractor, and each
  of them returns no symbol. With no symbol, the flag and cheatcode validators record
  nothing about a documentation file they can read, and the round of the configuration
  loop does not call its validator at all.
\<close>

theorem missing_source_diagnostics:
  "(fs file_path = None \<longrightarrow>
      extract_flags_from_file fs file_path c =
        Inr ([], c\<lparr>errors := errors c @ [''Source file not found: '' @ file_path]\<rparr>))
   \<and> (fs cheatcode_source = None \<longrightarrow>
      extract_cheatcodes fs c =
        Inr ([], c\<lparr>errors := errors c @ [''Cheatcode source file not found: '' @ cheatcode_source]\<rparr>))
   \<and> (fs file_path = None \<longrightarrow>
      extract_config_fields fs file_path struct_names c =
        Inr ([], c\<lparr>warnings := warnings c @ [''Config source file not found: '' @ file_path]\<rparr>))
   \<and> (fs doc_file = Some (File doc_content) \<longrightarrow>
      validate_flags_documented fs [] command doc_file c = Inr c)
   \<and> (fs cheatcode_interface = Some (File interface_content) \<longrightarrow>
      validate_cheatcodes_in_interface fs (base_methods_of []) c = Inr c)
   \<and> (fs file_path = None \<longrightarrow>
      check_config_mapping fs (file_path, struct_names, doc_file) (n, c) =
        Inr (n, c\<lparr>warnings := warnings c @ [''Config source file not found: '' @ file_path]\<rparr>))"
  by (simp add: extract_flags_from_file_def extract_cheatcodes_def extract_config_fields_def
      validate_flags_documented_def validate_cheatcodes_in_interface_def base_methods_of_def
      set_update_def check_config_mapping_def and_then_def add_error_def add_warning_def)

theorem missing_source_diagnostics_witness:
  "docs_only_repo ''cmd/fuzz_flags.go'' = None
   \<and> docs_only_repo cheatcode_source = None
   \<and> docs_only_repo ''docs/src/cli/fuzz.md'' = Some (File ''--seed'')
   \<and> docs_only_repo cheatcode_interface = Some (File ''function warp('')
   \<and> extract_flags_from_file docs_only_repo ''cmd/fuzz_flags.go'' new_checker =
        Inr ([], \<lparr>errors = [''Source file not found: cmd/fuzz_flags.go''], warnings = [],
                  printed = []\<rparr>)
   \<and> extract_cheatcodes docs_only_repo new_checker =
        Inr ([], \<lparr>errors = [''Cheatcode source file not found: chain/standard_cheat_code_contract.go''],
                  warnings = [], printed = []\<rparr>)
   \<and> extract_config_fields docs_only_repo ''cmd/fuzz_flags.go'' [''FuzzingConfig''] new_checker =
        Inr ([], \<lparr>errors = [], warnings = [''Config source file not found: cmd/fuzz_flags.go''],
                  printed = []\<rparr>)
   \<and> validate_flags_documented docs_only_repo [] ''fuzz'' ''docs/src/cli/fuzz.md'' new_checker =
        Inr new_checker
   \<and> validate_cheatcodes_in_interface docs_only_repo (base_methods_of []) new_checker =
        Inr new_checker"
  using missing_source_diagnostics [where fs = docs_only_repo and file_path = "''cmd/fuzz_flags.go''"
      and c = new_checker and struct_names = "[''FuzzingConfig'']"
      and doc_file = "''docs/src/cli/fuzz.md''" and doc_content = "''--seed''"
      and command = "''fuzz''" and interface_content = "''function warp(''"]
  by (simp add: docs_only_repo_def new_checker_def cheatcode_source_def cheatcode_interface_def)

text \<open>
  C7, counterexample. The statement fails for a configuration pairing whose extracted mapping is empty: the loop
  of \<open>check_config_fields\<close> calls the validator only under \<open>if fields\<close>, so the missing
  documentation file is then not looked at and no error is recorded.
\<close>

theorem config_pairing_without_doc_counterexample:
  "empty_struct_repo ''docs/src/project_configuration/fuzzing_config.md'' = None
   \<and> check_config_mapping empty_struct_repo
         (''fuzzing/config/config.go'', [''FuzzingConfig''],
          ''docs/src/project_configuration/fuzzing_config.md'') (0, new_checker)
       = Inr (0, \<lparr>errors = [], warnings = [], printed = []\<rparr>)"
  by code_simp

text \<open>
  C7, amended. When the documentation file of a pairing does not exist, each of the three
  validators records exactly one error, about the missing file, and nothing per symbol. A
  round of the configuration loop reaches its validator, and so records this one error,
  exactly when the extracted mapping is not empty.
\<close>

theorem missing_documentation_file:
  assumes "fs doc_file = None"
  shows "validate_flags_documented fs flags command doc_file c =
           Inr (c\<lparr>errors := errors c @ [''Documentation file not found: '' @ doc_file]\<rparr>)
       \<and> (doc_file = cheatcode_interface \<longrightarrow>
            validate_cheatcodes_in_interface fs base_methods c =
              Inr (c\<lparr>errors := errors c @ [''Cheatcode interface file not found: '' @ doc_file]\<rparr>))
       \<and> validate_config_fields_documented fs flds doc_file c =
           Inr (c\<lparr>errors := errors c @ [''Config documentation file not found: '' @ doc_file]\<rparr>)
       \<and> (extract_config_fields fs source_file struct_names c = Inr (flds, c1) \<longrightarrow>
            check_config_mapping fs (source_file, struct_names, doc_file) (n, c) =
              Inr (n + length flds,
                   if flds \<noteq> []
                   then c1\<lparr>errors := errors c1 @ [''Config documentation file not found: '' @ doc_file]\<rparr>
                   else c1))"
proof (intro conjI impI)
  show "validate_flags_documented fs flags command doc_file c =
          Inr (c\<lparr>errors := errors c @ [''Documentation file not found: '' @ doc_file]\<rparr>)"
    using assms by (simp add: validate_flags_documented_def add_error_def)
  show cfg: "validate_config_fields_documented fs flds doc_file c =
          Inr (c\<lparr>errors := errors c @ [''Config documentation file not found: '' @ doc_file]\<rparr>)"
    for flds c
    using assms by (simp add: validate_config_fields_documented_def add_error_def)
  show "validate_cheatcodes_in_interface fs base_methods c =
          Inr (c\<lparr>errors := errors c @ [''Cheatcode interface file not found: '' @ doc_file]\<rparr>)"
    if "doc_file = cheatcode_interface"
    using assms that by (simp add: validate_cheatcodes_in_interface_def add_error_def)
  show "check_config_mapping fs (source_file, struct_names, doc_file) (n, c) =
          Inr (n + length flds,
               if flds \<noteq> []
               then c1\<lparr>errors := errors c1 @ [''Config documentation file not found: '' @ doc_file]\<rparr>
               else c1)"
    if "extract_config_fields fs source_file struct_names c = Inr (flds, c1)"
    using that by (simp add: check_config_mapping_def and_then_def cfg)
qed

lemma one_struct_repo_fields:
  "extract_config_fields one_struct_repo ''fuzzing/config/config.go'' [''FuzzingConfig''] new_checker
     = Inr ([(''workers'', ''FuzzingConfig'')], new_checker)"
  by code_simp

theorem missing_documentation_file_witness:
  "one_struct_repo cheatcode_interface = None
   \<and> validate_flags_documented one_struct_repo [''seed''] ''fuzz'' cheatcode_interface new_checker =
       Inr \<lparr>errors = [''Documentation file not found: docs/src/cheatcodes/cheatcodes_overview.md''],
            warnings = [], printed = []\<rparr>
   \<and> validate_cheatcodes_in_interface one_struct_repo [''warp''] new_checker =
       Inr \<lparr>errors = [''Cheatcode interface file not found: docs/src/cheatcodes/cheatcodes_overview.md''],
            warnings = [], printed = []\<rparr>
   \<and> check_config_mapping one_struct_repo
         (''fuzzing/config/config.go'', [''FuzzingConfig''], cheatcode_interface) (0, new_checker) =
       Inr (1, \<lparr>errors = [''Config documentation file not found: docs/src/cheatcodes/cheatcodes_overview.md''],
                warnings = [], printed = []\<rparr>)"
proof -
  have absent: "one_struct_repo cheatcode_interface = None"
    by (simp add: one_struct_repo_def cheatcode_interface_def)
  show ?thesis
    using absent one_struct_repo_fields
      missing_documentation_file [where fs = one_struct_repo and doc_file = cheatcode_interface
        and flags = "[''seed'']" and command = "''fuzz''"
        and c = new_checker and base_methods = "[''warp'']"
        and flds = "[(''workers'', ''FuzzingConfig'')]"
        and source_file = "''fuzzing/config/config.go''" and struct_names = "[''FuzzingConfig'']"
        and ?c1.0 = new_checker and n = 0, OF absent]
    by (simp add: new_checker_def cheatcode_interface_def)
qed

subsection \<open>Presence tests\<close>

text \<open>
  C9. A flag counts as documented as soon as the documentation text holds two dashes
  followed by the flag name at any position, whatever comes before and after; the
  validator then records no error for this flag.
\<close>

theorem flag_substring_presence:
  assumes "fs doc_file = Some (File doc_content)"
    and "doc_content = before @ ''--'' @ flag @ after"
  shows "flag_documented doc_content flag
       \<and> validate_flags_documented fs flags command doc_file c =
           Inr (c\<lparr>errors := errors c @ map (\<lambda>f. flag_error f command doc_file)
                                        (filter (\<lambda>f. \<not> flag_documented doc_content f) flags)\<rparr>)
       \<and> flag_error flag command doc_file
           \<notin> set (map (\<lambda>f. flag_error f command doc_file)
                      (filter (\<lambda>f. \<not> flag_documented doc_content f) flags))"
proof -
  have "doc_content = before @ (''--'' @ flag) @ after"
    using assms(2) by simp
  then have "contains (''--'' @ flag) doc_content"
    unfolding contains_iff by blast
  then have doc: "flag_documented doc_content flag"
    by (simp add: flag_documented_def)
  moreover have "flag_error flag command doc_file
      \<notin> set (map (\<lambda>f. flag_error f command doc_file)
                 (filter (\<lambda>f. \<not> flag_documented doc_content f) flags))"
    using doc by (auto dest: flag_error_inject)
  ultimately show ?thesis
    using assms(1) by (simp add: validate_flags_readable)
qed





theorem flag_substring_presence_witness:
  "fuzz_doc_repo ''docs/src/cli/fuzz.md'' = Some (File ''see --seed-file for details'')
   \<and> ''see --seed-file for details'' = ''see '' @ ''--'' @ ''seed'' @ ''-file for details''
   \<and> flag_documented ''see --seed-file for details'' ''seed''
   \<and> validate_flags_documented fuzz_doc_repo [''seed'', ''workers''] ''fuzz''
        ''docs/src/cli/fuzz.md'' new_checker
       = Inr \<lparr>errors = [flag_error ''workers'' ''fuzz'' ''docs/src/cli/fuzz.md''],
              warnings = [], printed = []\<rparr>"
proof -
  have f: "fuzz_doc_repo ''docs/src/cli/fuzz.md'' = Some (File ''see --seed-file for details'')"
    by (simp add: fuzz_doc_repo_def)
  have d: "''see --seed-file for details'' = ''see '' @ ''--'' @ ''seed'' @ ''-file for details''"
    by simp
  have w: "\<not> flag_documented ''see --seed-file for details'' ''workers''"
    by code_simp
  show ?thesis
    using f w flag_substring_presence [where fs = fuzz_doc_repo and doc_file = "''docs/src/cli/fuzz.md''"
        and doc_content = "''see --seed-file for details''" and before = "''see ''"
        and flag = "''seed''" and after = "''-file for details''"
        and flags = "[''seed'', ''workers'']" and command = "''fuzz''" and c = new_checker, OF f d]
    by (simp add: new_checker_def)
qed

text \<open>
  C4. The heading test lowers the documentation text and not the field name, so a name
  with an upper-case letter is never found as a heading, not even in its own casing.
\<close>

theorem heading_case_mismatch:
  "config_field_documented ''## testLimit'' ''testLimit'' = False
   \<and> validate_config_fields_documented
        [''docs/src/project_configuration/fuzzing_config.md'' \<mapsto> File ''## testLimit'']
        [(''testLimit'', ''FuzzingConfig'')]
        ''docs/src/project_configuration/fuzzing_config.md'' new_checker
       = Inr \<lparr>errors = [config_field_error ''testLimit'' ''FuzzingConfig''
                          ''docs/src/project_configuration/fuzzing_config.md''],
              warnings = [], printed = []\<rparr>"
  by code_simp

subsection \<open>Cheatcode registrations\<close>

text \<open>
  C3, counterexample. The statement fails on the raw count: \<open>check_cheatcodes\<close> prints
  \<open>len(cheatcodes)\<close>, the size of the set of registration strings. For a source that
  registers the same string twice the pattern matches twice and the counts printed are 1
  and 1.
\<close>

theorem repeated_registration_counterexample:
  "findall method_pattern repeated_source = [''warp(uint256)'', ''warp(uint256)'']
   \<and> check_cheatcodes repeated_repo new_checker =
       Inr \<lparr>errors = [], warnings = [],
            printed = [Checking ''cheatcodes'', Found_cheatcodes 1 1]\<rparr>"
  by code_simp

text \<open>
  C3, amended. \<open>check_cheatcodes\<close> prints two counts: the number of distinct registration
  strings matched and the number of distinct base names; the first is the raw match count
  only when no registration string is matched twice. For a source whose only
  registrations are two strings with the same base name and different parameter lists,
  the pattern matches twice, the set holds both strings, the base names collapse to one,
  and the counts printed are 2 and 1.
\<close>

theorem overloads_collapse_to_base_name:
  assumes src: "fs cheatcode_source = Some (File content)"
    and doc: "fs cheatcode_interface \<noteq> Some Unreadable"
  shows "(\<exists>c'. check_cheatcodes fs c = Inr c'
           \<and> printed c' = printed c @
                [Checking ''cheatcodes'',
                 Found_cheatcodes (length (cheatcodes_in content))
                   (length (base_methods_of (cheatcodes_in content)))])
       \<and> (content = f0 @ registration w1 (b @ ''('' @ p1) @ f1
                        @ registration w2 (b @ ''('' @ p2) @ f2
            \<and> p1 \<noteq> p2 \<and> CHR ''('' \<notin> set b \<and> DQ \<notin> set (b @ p1 @ p2)
            \<and> (\<forall>c\<in>set (w1 @ w2). is_space c)
            \<and> \<not> contains ''addMethod('' f0 \<and> \<not> contains ''addMethod('' f1
            \<and> \<not> contains ''addMethod('' f2
          \<longrightarrow> findall method_pattern content = [b @ ''('' @ p1, b @ ''('' @ p2]
            \<and> cheatcodes_in content = [b @ ''('' @ p1, b @ ''('' @ p2]
            \<and> base_methods_of (cheatcodes_in content) = [b]
            \<and> length (cheatcodes_in content) = 2
            \<and> length (base_methods_of (cheatcodes_in content)) = 1)
       \<and> length (cheatcodes_in content) = card (set (findall method_pattern content))
       \<and> length (base_methods_of (cheatcodes_in content))
           = card (split_first (CHR ''('') ` set (findall method_pattern content))"
proof (intro conjI impI)
  show "length (cheatcodes_in content) = card (set (findall method_pattern content))"
    using distinct_card [of "cheatcodes_in content"] by (simp add: cheatcodes_in_def)
  show "length (base_methods_of (cheatcodes_in content))
           = card (split_first (CHR ''('') ` set (findall method_pattern content))"
    using distinct_card [of "base_methods_of (cheatcodes_in content)"]
    by (simp add: base_methods_of_def cheatcodes_in_def)
  show "\<exists>c'. check_cheatcodes fs c = Inr c'
           \<and> printed c' = printed c @
                [Checking ''cheatcodes'',
                 Found_cheatcodes (length (cheatcodes_in content))
                   (length (base_methods_of (cheatcodes_in content)))]"
    using src doc by (rule check_cheatcodes_printed)
next
  assume a: "content = f0 @ registration w1 (b @ ''('' @ p1) @ f1
                        @ registration w2 (b @ ''('' @ p2) @ f2
            \<and> p1 \<noteq> p2 \<and> CHR ''('' \<notin> set b \<and> DQ \<notin> set (b @ p1 @ p2)
            \<and> (\<forall>c\<in>set (w1 @ w2). is_space c)
            \<and> \<not> contains ''addMethod('' f0 \<and> \<not> contains ''addMethod('' f1
            \<and> \<not> contains ''addMethod('' f2"
  let ?r1 = "b @ ''('' @ p1" and ?r2 = "b @ ''('' @ p2"
  have q: "DQ \<notin> set ?r1" "DQ \<notin> set ?r2" "?r1 \<noteq> []" "?r2 \<noteq> []" using a by auto
  have w: "\<forall>c\<in>set w1. is_space c" "\<forall>c\<in>set w2. is_space c" using a by auto
  have "findall method_pattern content
          = ?r1 # findall method_pattern (f1 @ registration w2 ?r2 @ f2)"
    using a findall_registration [OF _ w(1) q(3) q(1)] by simp
  also have "findall method_pattern (f1 @ registration w2 ?r2 @ f2)
          = ?r2 # findall method_pattern f2"
    using a findall_registration [OF _ w(2) q(4) q(2)] by simp
  also have "findall method_pattern f2 = []"
    using a by (simp add: findall_method_tail)
  finally show m: "findall method_pattern content = [?r1, ?r2]" .
  have ne: "?r1 \<noteq> ?r2" using a by simp
  show cs: "cheatcodes_in content = [?r1, ?r2]"
    using ne by (simp add: cheatcodes_in_def m set_add_def)
  have "split_first (CHR ''('') ?r1 = b" "split_first (CHR ''('') ?r2 = b"
    using a by (auto simp: split_first_def takeWhile_tail)
  then show bs: "base_methods_of (cheatcodes_in content) = [b]"
    by (simp add: cs base_methods_of_def set_add_def)
  show "length (cheatcodes_in content) = 2" by (simp add: cs)
  show "length (base_methods_of (cheatcodes_in content)) = 1" by (simp add: bs)
qed

theorem overloads_collapse_to_base_name_witness:
  "overload_repo cheatcode_source = Some (File overload_source)
   \<and> overload_repo cheatcode_interface \<noteq> Some Unreadable
   \<and> cheatcodes_in overload_source = [''toString(address)'', ''toString(uint256)'']
   \<and> base_methods_of (cheatcodes_in overload_source) = [''toString'']
   \<and> (\<exists>c'. check_cheatcodes overload_repo new_checker = Inr c'
          \<and> printed c' = [Checking ''cheatcodes'', Found_cheatcodes 2 1])"
proof -
  have src: "overload_repo cheatcode_source = Some (File overload_source)"
    by (simp add: overload_repo_def cheatcode_source_def cheatcode_interface_def)
  have doc: "overload_repo cheatcode_interface \<noteq> Some Unreadable"
    by (simp add: overload_repo_def)
  have shape: "overload_source =
      ''contract.'' @ registration ''\<newline>  '' (''toString'' @ ''('' @ ''address)'')
        @ '', f)\<newline>contract.'' @ registration [] (''toString'' @ ''('' @ ''uint256)'')
        @ '', g)\<newline>''"
    by (simp add: overload_source_def registration_def)
  have side: "''address)'' \<noteq> ''uint256)'' \<and> CHR ''('' \<notin> set ''toString''
      \<and> DQ \<notin> set (''toString'' @ ''address)'' @ ''uint256)'')
      \<and> (\<forall>c\<in>set (''\<newline>  '' @ []). is_space c)
      \<and> \<not> contains ''addMethod('' ''contract.''
      \<and> \<not> contains ''addMethod('' '', f)\<newline>contract.''
      \<and> \<not> contains ''addMethod('' '', g)\<newline>''"
    by (simp add: is_space_def)
  note inst = overloads_collapse_to_base_name [OF src doc, where c = new_checker
        and ?f0.0 = "''contract.''" and ?w1.0 = "''\<newline>  ''" and b = "''toString''"
        and ?p1.0 = "''address)''" and ?f1.0 = "'', f)\<newline>contract.''" and ?w2.0 = "[]"
        and ?p2.0 = "''uint256)''" and ?f2.0 = "'', g)\<newline>''"]
  from inst [THEN conjunct2] shape side
  have found: "cheatcodes_in overload_source = [''toString'' @ ''('' @ ''address)'', ''toString'' @ ''('' @ ''uint256)'']
      \<and> base_methods_of (cheatcodes_in overload_source) = [''toString'']
      \<and> length (cheatcodes_in overload_source) = 2
      \<and> length (base_methods_of (cheatcodes_in overload_source)) = 1"
    by blast
  from inst [THEN conjunct1] obtain c' where run: "check_cheatcodes overload_repo new_checker = Inr c'"
    and out: "printed c' = printed new_checker @
                [Checking ''cheatcodes'',
                 Found_cheatcodes (length (cheatcodes_in overload_source))
                   (length (base_methods_of (cheatcodes_in overload_source)))]"
    by blast
  from found have n: "length (cheatcodes_in overload_source) = 2"
    "length (base_methods_of (cheatcodes_in overload_source)) = 1"
    by blast+
  have "printed c' = [Checking ''cheatcodes'', Found_cheatcodes 2 1]"
    unfolding out n by (simp add: new_checker_def)
  with run have "\<exists>c'. check_cheatcodes overload_repo new_checker = Inr c'
          \<and> printed c' = [Checking ''cheatcodes'', Found_cheatcodes 2 1]"
    by blast
  moreover from found
  have "cheatcodes_in overload_source = [''toString'' @ ''('' @ ''address)'', ''toString'' @ ''('' @ ''uint256)'']"
    by blast
  then have "cheatcodes_in overload_source = [''toString(address)'', ''toString(uint256)'']"
    by simp
  moreover from found have "base_methods_of (cheatcodes_in overload_source) = [''toString'']"
    by blast
  ultimately show ?thesis using src doc by blast
qed

subsection \<open>Configuration fields\<close>

text \<open>
  C5, counterexample. The statement fails on casing: the loop tests \<open>',omitempty' in json_field_name\<close>, a
  case-sensitive substring test, so a tag written \<open>seed,OmitEmpty\<close> is not skipped and its
  key enters the mapping.
\<close>

theorem omitempty_casing_counterexample:
  "extract_config_fields mixed_case_repo ''fuzzing/config/config.go'' [''FuzzingConfig''] new_checker
     = Inr ([(''seed'', ''FuzzingConfig'')], new_checker)"
  by code_simp

text \<open>
  C5, amended. A field whose JSON tag contains the text \<open>,omitempty\<close> in lower case,
  with or without further modifiers after it, adds nothing to the mapping; and every
  entry of the extracted mapping is the key of a matched field of its struct whose tag
  does not contain \<open>,omitempty\<close>.
\<close>

theorem omitempty_fields_skipped:
  "(go_field_name \<noteq> [] \<longrightarrow> contains '',omitempty'' json_field_name \<longrightarrow>
      add_field struct_name d (go_field_name, field_type, json_field_name) = Inr d)
   \<and> (extract_config_fields fs source_file struct_names c = Inr (flds, c') \<longrightarrow>
      (k, sn) \<in> set flds \<longrightarrow>
      (\<exists>content body g t j. fs source_file = Some (File content) \<and> sn \<in> set struct_names
           \<and> re_search (struct_pattern sn) content = Some body
           \<and> (g, t, j) \<in> set (findall field_pattern body)
           \<and> \<not> contains '',omitempty'' j \<and> k = split_first (CHR '','') j))"
proof (intro conjI impI)
  assume "go_field_name \<noteq> []" "contains '',omitempty'' json_field_name"
  then show "add_field struct_name d (go_field_name, field_type, json_field_name) = Inr d"
    by (cases go_field_name) auto
next
  assume "extract_config_fields fs source_file struct_names c = Inr (flds, c')"
    "(k, sn) \<in> set flds"
  from config_entry_source [OF this] obtain content body g t j where
    "fs source_file = Some (File content)" "sn \<in> set struct_names"
    "re_search (struct_pattern sn) content = Some body"
    "(g, t, j) \<in> set (findall field_pattern body)"
    "extractable (g, t, j)" "k = split_first (CHR '','') j"
    by blast
  moreover from this(5) have "\<not> contains '',omitempty'' j" by (simp add: extractable_def)
  ultimately show "\<exists>content body g t j. fs source_file = Some (File content)
           \<and> sn \<in> set struct_names
           \<and> re_search (struct_pattern sn) content = Some body
           \<and> (g, t, j) \<in> set (findall field_pattern body)
           \<and> \<not> contains '',omitempty'' j \<and> k = split_first (CHR '','') j"
    by blast
qed

lemma tagged_repo_fields:
  "extract_config_fields tagged_repo ''fuzzing/config/config.go'' [''FuzzingConfig''] new_checker
     = Inr ([(''workers'', ''FuzzingConfig'')], new_checker)"
  by code_simp

theorem omitempty_fields_skipped_witness:
  "add_field ''FuzzingConfig'' [] (''Seed'', ''int'', ''seed,omitempty,string'') = Inr []
   \<and> extract_config_fields tagged_repo ''fuzzing/config/config.go'' [''FuzzingConfig''] new_checker
       = Inr ([(''workers'', ''FuzzingConfig'')], new_checker)
   \<and> (\<exists>content body g t j.
         tagged_repo ''fuzzing/config/config.go'' = Some (File content)
         \<and> ''FuzzingConfig'' \<in> set [''FuzzingConfig'']
         \<and> re_search (struct_pattern ''FuzzingConfig'') content = Some body
         \<and> (g, t, j) \<in> set (findall field_pattern body)
         \<and> \<not> contains '',omitempty'' j \<and> ''workers'' = split_first (CHR '','') j)"
proof -
  note inst = omitempty_fields_skipped [where go_field_name = "''Seed''"
      and json_field_name = "''seed,omitempty,string''" and struct_name = "''FuzzingConfig''"
      and d = "[]" and field_type = "''int''" and fs = tagged_repo
      and source_file = "''fuzzing/config/config.go''" and struct_names = "[''FuzzingConfig'']"
      and c = new_checker and flds = "[(''workers'', ''FuzzingConfig'')]" and c' = new_checker
      and k = "''workers''" and sn = "''FuzzingConfig''"]
  have tag: "contains '',omitempty'' ''seed,omitempty,string''" by simp
  from inst [THEN conjunct1] tag
  have "add_field ''FuzzingConfig'' [] (''Seed'', ''int'', ''seed,omitempty,string'') = Inr []"
    by simp
  moreover from inst [THEN conjunct2] tagged_repo_fields
  have "\<exists>content body g t j.
         tagged_repo ''fuzzing/config/config.go'' = Some (File content)
         \<and> ''FuzzingConfig'' \<in> set [''FuzzingConfig'']
         \<and> re_search (struct_pattern ''FuzzingConfig'') content = Some body
         \<and> (g, t, j) \<in> set (findall field_pattern body)
         \<and> \<not> contains '',omitempty'' j \<and> ''workers'' = split_first (CHR '','') j"
    by simp
  ultimately show ?thesis using tagged_repo_fields by blast
qed

text \<open>
  C6, counterexample. The statement fails on non-emptiness: the key of a field is \<open>json_field_name.split(',')[0]\<close>,
  which is empty for a tag that starts with a comma, such as \<open>json:",string"\<close>; the
  mapping then holds the empty key.
\<close>

theorem empty_key_counterexample:
  "extract_config_fields unnamed_key_repo ''fuzzing/config/config.go'' [''FuzzingConfig''] new_checker
     = Inr ([([], ''FuzzingConfig'')], new_checker)"
  by code_simp

text \<open>
  C6, amended. Every flag name extracted is non-empty. Every base method name is the text
  of a non-empty registration string before its first parenthesis: it contains no
  parenthesis, and it is non-empty when the registration does not start with one. Every
  key of the extracted mapping is the text of a non-empty JSON tag before its first comma:
  it contains no comma, and it is non-empty when the tag does not start with one.
\<close>

theorem extracted_names_normalised:
  "(f \<in> set (flags_in content) \<longrightarrow> f \<noteq> [])
   \<and> (b \<in> set (base_methods_of (cheatcodes_in content)) \<longrightarrow>
        CHR ''('' \<notin> set b
        \<and> (\<exists>r\<in>set (cheatcodes_in content). r \<noteq> [] \<and> b = split_first (CHR ''('') r
              \<and> (hd r \<noteq> CHR ''('' \<longrightarrow> b \<noteq> [])))
   \<and> (extract_config_fields fs source_file struct_names c = Inr (flds, c') \<longrightarrow>
        (k, sn) \<in> set flds \<longrightarrow>
        CHR '','' \<notin> set k
        \<and> (\<exists>source body g t j. fs source_file = Some (File source)
              \<and> re_search (struct_pattern sn) source = Some body
              \<and> (g, t, j) \<in> set (findall field_pattern body)
              \<and> j \<noteq> [] \<and> k = split_first (CHR '','') j
              \<and> (hd j \<noteq> CHR '','' \<longrightarrow> k \<noteq> [])))"
proof (intro conjI impI)
  assume "f \<in> set (flags_in content)"
  then show "f \<noteq> []" by (rule flags_in_nonempty)
next
  assume b: "b \<in> set (base_methods_of (cheatcodes_in content))"
  from base_method_source [OF b] show "CHR ''('' \<notin> set b" by blast
  from base_method_source [OF b]
  show "\<exists>r\<in>set (cheatcodes_in content). r \<noteq> [] \<and> b = split_first (CHR ''('') r
              \<and> (hd r \<noteq> CHR ''('' \<longrightarrow> b \<noteq> [])" by blast
next
  assume a: "extract_config_fields fs source_file struct_names c = Inr (flds, c')"
    "(k, sn) \<in> set flds"
  from config_entry_source [OF a] obtain source body g t j where s:
    "fs source_file = Some (File source)"
    "re_search (struct_pattern sn) source = Some body"
    "(g, t, j) \<in> set (findall field_pattern body)"
    "j \<noteq> []" "k = split_first (CHR '','') j"
    by blast
  from s(5) show "CHR '','' \<notin> set k" by (auto simp: split_first_def dest: set_takeWhileD)
  from s(4,5) have "hd j \<noteq> CHR '','' \<longrightarrow> k \<noteq> []"
    by (simp add: split_first_def takeWhile_eq_Nil_iff)
  with s show "\<exists>source body g t j. fs source_file = Some (File source)
              \<and> re_search (struct_pattern sn) source = Some body
              \<and> (g, t, j) \<in> set (findall field_pattern body)
              \<and> j \<noteq> [] \<and> k = split_first (CHR '','') j
              \<and> (hd j \<noteq> CHR '','' \<longrightarrow> k \<noteq> [])"
    by blast
qed

lemma calls_source_symbols:
  "flags_in calls_source = [''seed'']"
  "cheatcodes_in calls_source = [''warp(uint256)'']"
  "base_methods_of (cheatcodes_in calls_source) = [''warp'']"
  by code_simp+

theorem extracted_names_normalised_witness:
  "flags_in calls_source = [''seed''] \<and> ''seed'' \<noteq> []
   \<and> base_methods_of (cheatcodes_in calls_source) = [''warp'']
   \<and> CHR ''('' \<notin> set ''warp''
   \<and> extract_config_fields tagged_repo ''fuzzing/config/config.go'' [''FuzzingConfig''] new_checker
       = Inr ([(''workers'', ''FuzzingConfig'')], new_checker)
   \<and> CHR '','' \<notin> set ''workers''"
proof -
  note inst = extracted_names_normalised [where f = "''seed''" and content = calls_source
      and b = "''warp''" and fs = tagged_repo
      and source_file = "''fuzzing/config/config.go''" and struct_names = "[''FuzzingConfig'']"
      and c = new_checker and flds = "[(''workers'', ''FuzzingConfig'')]" and c' = new_checker
      and k = "''workers''" and sn = "''FuzzingConfig''"]
  from inst [THEN conjunct1] have "''seed'' \<noteq> []" by (simp add: calls_source_symbols)
  moreover from inst [THEN conjunct2, THEN conjunct1]
  have "CHR ''('' \<notin> set ''warp''" by (simp add: calls_source_symbols)
  moreover from inst [THEN conjunct2, THEN conjunct2] tagged_repo_fields
  have "CHR '','' \<notin> set ''workers''" by simp
  ultimately show ?thesis using calls_source_symbols tagged_repo_fields by blast
qed

text \<open>
  C10, counterexample. The statement fails when the field of the later struct is filtered
  out: both structs declare a field with the key \<open>enabled\<close>, the tag of the second carries
  \<open>,omitempty\<close>, and the single entry names the first struct, not the one processed last.
\<close>

theorem later_filtered_field_counterexample:
  "re_search (struct_pattern ''AssertionTestingConfig'') later_omitempty_source
     = Some (CHR '' '' # ''Enabled bool '' @ [BT] @ ''json:'' @ [DQ] @ ''enabled'' @ [DQ, BT, CHR '' ''])
   \<and> re_search (struct_pattern ''PropertyTestingConfig'') later_omitempty_source
     = Some (CHR '' '' # ''Enabled bool '' @ [BT] @ ''json:'' @ [DQ] @ ''enabled,omitempty''
              @ [DQ, BT, CHR '' ''])
   \<and> extract_config_fields later_omitempty_repo ''fuzzing/config/config.go''
        [''AssertionTestingConfig'', ''PropertyTestingConfig''] new_checker
       = Inr ([(''enabled'', ''AssertionTestingConfig'')], new_checker)"
  by code_simp

text \<open>
  C10, amended. The extracted mapping has one entry per key, and the struct it names for a
  key is the last struct of the requested list that contributes the key, that is, has a
  matched field with this key that passes the three tests of the loop (exported name, no
  \<open>,omitempty\<close> in the tag, no nested configuration type). In particular, when two
  requested structs contribute the same key and no later struct does, the single entry
  for the key names the second of them. The validator records one error per
  undocumented entry, so at most one error comes from the entries with a given key.
\<close>

theorem last_struct_labels_shared_key:
  assumes src: "fs source_file = Some (File content)"
    and ex: "extract_config_fields fs source_file struct_names c = Inr (flds, c')"
  shows "distinct (map fst flds)
       \<and> map_of flds k =
           (case filter (\<lambda>sn. k \<in> set (struct_keys content sn)) struct_names of
              [] \<Rightarrow> None
            | x # xs \<Rightarrow> Some (last (x # xs)))
       \<and> (struct_names = before @ s1 # between @ s2 # after
            \<and> k \<in> set (struct_keys content s1) \<and> k \<in> set (struct_keys content s2)
            \<and> (\<forall>s\<in>set after. k \<notin> set (struct_keys content s))
          \<longrightarrow> filter (\<lambda>e. fst e = k) flds = [(k, s2)])
       \<and> length (filter (\<lambda>e. fst e = k) flds) \<le> 1
       \<and> (fs doc_file = Some (File doc_content) \<longrightarrow>
            validate_config_fields_documented fs flds doc_file c2 =
              Inr (c2\<lparr>errors := errors c2 @ map (\<lambda>(k, s). config_field_error k s doc_file)
                      (filter (\<lambda>(k, s). \<not> config_field_documented doc_content k) flds)\<rparr>)
            \<and> length (filter (\<lambda>e. fst e = k)
                        (filter (\<lambda>(k, s). \<not> config_field_documented doc_content k) flds)) \<le> 1)
       \<and> (k \<in> set (struct_keys content s) \<longleftrightarrow>
            (\<exists>body g t j. re_search (struct_pattern s) content = Some body
               \<and> (g, t, j) \<in> set (findall field_pattern body)
               \<and> extractable (g, t, j) \<and> k = split_first (CHR '','') j))"
proof -
  have contributes: "k \<in> set (struct_keys content s) \<longleftrightarrow>
            (\<exists>body g t j. re_search (struct_pattern s) content = Some body
               \<and> (g, t, j) \<in> set (findall field_pattern body)
               \<and> extractable (g, t, j) \<and> k = split_first (CHR '','') j)"
    by (rule struct_keys_iff)
  from src ex have f: "flds = fold (\<lambda>sn d. put_keys sn (struct_keys content sn) d) struct_names []"
    by (simp add: extract_config_readable)
  have d: "distinct (map fst flds)" unfolding f by (simp add: distinct_scan)
  have m: "map_of flds k =
           (case filter (\<lambda>sn. k \<in> set (struct_keys content sn)) struct_names of
              [] \<Rightarrow> None
            | x # xs \<Rightarrow> Some (last (x # xs)))"
    unfolding f map_of_scan by (simp split: list.splits)
  have two: "filter (\<lambda>e. fst e = k) flds = [(k, s2)]"
    if a: "struct_names = before @ s1 # between @ s2 # after
            \<and> k \<in> set (struct_keys content s1) \<and> k \<in> set (struct_keys content s2)
            \<and> (\<forall>s\<in>set after. k \<notin> set (struct_keys content s))"
  proof -
    from a have "filter (\<lambda>sn. k \<in> set (struct_keys content sn)) after = []"
      by (simp add: filter_empty_conv)
    with a have "filter (\<lambda>sn. k \<in> set (struct_keys content sn)) struct_names
        = filter (\<lambda>sn. k \<in> set (struct_keys content sn)) (before @ s1 # between) @ [s2]"
      by simp
    then have "map_of flds k = Some s2"
      unfolding m by (simp only: last_snoc_case)
    from single_entry [OF d this] show ?thesis .
  qed
  have one: "length (filter (\<lambda>e. fst e = k) flds) \<le> 1"
    using d by (rule at_most_one_entry)
  have "length (filter (\<lambda>e. fst e = k) (filter P flds)) \<le> 1" for P
  proof -
    have "length (filter (\<lambda>e. fst e = k) (filter P flds))
            = length (filter P (filter (\<lambda>e. fst e = k) flds))"
      by (simp add: conj_commute)
    also have "\<dots> \<le> length (filter (\<lambda>e. fst e = k) flds)" by (rule length_filter_le)
    finally show ?thesis using one by simp
  qed
  with d m two one have "distinct (map fst flds)
       \<and> map_of flds k =
           (case filter (\<lambda>sn. k \<in> set (struct_keys content sn)) struct_names of
              [] \<Rightarrow> None
            | x # xs \<Rightarrow> Some (last (x # xs)))
       \<and> (struct_names = before @ s1 # between @ s2 # after
            \<and> k \<in> set (struct_keys content s1) \<and> k \<in> set (struct_keys content s2)
            \<and> (\<forall>s\<in>set after. k \<notin> set (struct_keys content s))
          \<longrightarrow> filter (\<lambda>e. fst e = k) flds = [(k, s2)])
       \<and> length (filter (\<lambda>e. fst e = k) flds) \<le> 1
       \<and> (fs doc_file = Some (File doc_content) \<longrightarrow>
            validate_config_fields_documented fs flds doc_file c2 =
              Inr (c2\<lparr>errors := errors c2 @ map (\<lambda>(k, s). config_field_error k s doc_file)
                      (filter (\<lambda>(k, s). \<not> config_field_documented doc_content k) flds)\<rparr>)
            \<and> length (filter (\<lambda>e. fst e = k)
                        (filter (\<lambda>(k, s). \<not> config_field_documented doc_content k) flds)) \<le> 1)"
    by (simp add: validate_config_readable)
  with contributes show ?thesis by blast
qed

lemma shared_key_repo_fields:
  "extract_config_fields shared_key_repo ''fuzzing/config/config.go''
     [''AssertionTestingConfig'', ''PropertyTestingConfig''] new_checker
     = Inr ([(''enabled'', ''PropertyTestingConfig'')], new_checker)"
  by code_simp

lemma shared_key_declared:
  "''enabled'' \<in> set (struct_keys shared_key_source ''AssertionTestingConfig'')"
  "''enabled'' \<in> set (struct_keys shared_key_source ''PropertyTestingConfig'')"
  by code_simp+

theorem last_struct_labels_shared_key_witness:
  "shared_key_repo ''fuzzing/config/config.go'' = Some (File shared_key_source)
   \<and> extract_config_fields shared_key_repo ''fuzzing/config/config.go''
        [''AssertionTestingConfig'', ''PropertyTestingConfig''] new_checker
       = Inr ([(''enabled'', ''PropertyTestingConfig'')], new_checker)
   \<and> ''enabled'' \<in> set (struct_keys shared_key_source ''AssertionTestingConfig'')
   \<and> ''enabled'' \<in> set (struct_keys shared_key_source ''PropertyTestingConfig'')
   \<and> filter (\<lambda>e. fst e = ''enabled'') [(''enabled'', ''PropertyTestingConfig'')]
       = [(''enabled'', ''PropertyTestingConfig'')]
   \<and> validate_config_fields_documented shared_key_repo [(''enabled'', ''PropertyTestingConfig'')]
        ''docs/src/project_configuration/testing_config.md'' new_checker
       = Inr \<lparr>errors = [config_field_error ''enabled'' ''PropertyTestingConfig''
                          ''docs/src/project_configuration/testing_config.md''],
              warnings = [], printed = []\<rparr>"
proof -
  have src: "shared_key_repo ''fuzzing/config/config.go'' = Some (File shared_key_source)"
    by (simp add: shared_key_repo_def)
  have doc: "shared_key_repo ''docs/src/project_configuration/testing_config.md''
      = Some (File ''# Testing'')"
    by (simp add: shared_key_repo_def)
  have undoc: "\<not> config_field_documented ''# Testing'' ''enabled''" by code_simp
  note inst = last_struct_labels_shared_key [OF src shared_key_repo_fields,
      where k = "''enabled''" and before = "[]" and ?s1.0 = "''AssertionTestingConfig''"
      and between = "[]" and ?s2.0 = "''PropertyTestingConfig''" and after = "[]"
      and doc_file = "''docs/src/project_configuration/testing_config.md''"
      and doc_content = "''# Testing''" and ?c2.0 = new_checker]
  from inst shared_key_declared
  have "filter (\<lambda>e. fst e = ''enabled'') [(''enabled'', ''PropertyTestingConfig'')]
       = [(''enabled'', ''PropertyTestingConfig'')]"
    by simp
  moreover from inst doc undoc
  have "validate_config_fields_documented shared_key_repo [(''enabled'', ''PropertyTestingConfig'')]
        ''docs/src/project_configuration/testing_config.md'' new_checker
       = Inr \<lparr>errors = [config_field_error ''enabled'' ''PropertyTestingConfig''
                          ''docs/src/project_configuration/testing_config.md''],
              warnings = [], printed = []\<rparr>"
    by (simp add: new_checker_def)
  ultimately show ?thesis using src shared_key_repo_fields shared_key_declared by blast
qed

subsection \<open>Flag declarations\<close>

text \<open>
  C2, counterexample. The statement fails on white space: neither flag pattern allows
  white space after the opening parenthesis (the typed pattern allows none at all), so a
  declaration whose name stands on the line after \<^verbatim>\<open>.Flags().String(\<close> is not
  matched and the extractor returns no symbol for it.
\<close>

theorem flag_call_split_over_lines_counterexample:
  "flags_in split_call_source = []"
  by code_simp

text \<open>
  C2, amended. For a source text of N flag declarations written without white space
  between their tokens (white space is allowed only between the comma and the short name
  of a counting flag), with valid and pairwise distinct names, and with other text around
  them in which no further head of a declaration occurs, the extractor returns exactly N
  symbols, the declared names; any other such text with the same declarations, in any
  order and with any other text around them, gives the same set.
\<close>

theorem declared_flags_extracted:
  assumes "well_formed ds fin" and "distinct (map (decl_name \<circ> snd) ds)"
  shows "set (flags_in (source_text ds fin)) = set (map (decl_name \<circ> snd) ds)
       \<and> length (flags_in (source_text ds fin)) = length ds
       \<and> (\<forall>ds' fin'. well_formed ds' fin' \<and> set (map snd ds') = set (map snd ds) \<longrightarrow>
             set (flags_in (source_text ds' fin')) = set (flags_in (source_text ds fin)))"
proof (intro conjI allI impI)
  show s: "set (flags_in (source_text ds fin)) = set (map (decl_name \<circ> snd) ds)"
    by (simp add: set_flags_in_source [OF assms(1)] image_image)
  have "length (flags_in (source_text ds fin)) = card (set (flags_in (source_text ds fin)))"
    by (simp add: distinct_card distinct_flags_in)
  also have "\<dots> = card (set (map (decl_name \<circ> snd) ds))" by (simp only: s)
  also have "\<dots> = length ds" using distinct_card [OF assms(2)] by simp
  finally show "length (flags_in (source_text ds fin)) = length ds" .
next
  fix ds' fin'
  assume a: "well_formed ds' fin' \<and> set (map snd ds') = set (map snd ds)"
  then have "snd ` set ds' = snd ` set ds" by simp
  then show "set (flags_in (source_text ds' fin')) = set (flags_in (source_text ds fin))"
    using a by (simp add: set_flags_in_source assms(1))
qed

lemma sample_well_formed:
  "well_formed sample_decls sample_tail"
  "well_formed (rev sample_decls) sample_tail"
  "distinct (map (decl_name \<circ> snd) sample_decls)"
  by code_simp+

theorem declared_flags_extracted_witness:
  "well_formed sample_decls sample_tail
   \<and> distinct (map (decl_name \<circ> snd) sample_decls)
   \<and> set (flags_in (source_text sample_decls sample_tail))
       = {''config'', ''verbose'', ''rpc.url''}
   \<and> length (flags_in (source_text sample_decls sample_tail)) = 3
   \<and> set (flags_in (source_text (rev sample_decls) sample_tail))
       = set (flags_in (source_text sample_decls sample_tail))"
proof -
  note inst = declared_flags_extracted [OF sample_well_formed(1) sample_well_formed(3)]
  from inst have "set (flags_in (source_text sample_decls sample_tail))
      = set (map (decl_name \<circ> snd) sample_decls)" by blast
  then have a: "set (flags_in (source_text sample_decls sample_tail))
       = {''config'', ''verbose'', ''rpc.url''}"
    by (simp add: sample_decls_def)
  from inst have "length (flags_in (source_text sample_decls sample_tail)) = length sample_decls"
    by blast
  then have b: "length (flags_in (source_text sample_decls sample_tail)) = 3"
    by (simp add: sample_decls_def)
  have "set (map snd (rev sample_decls)) = set (map snd sample_decls)" by simp
  with inst sample_well_formed(2)
  have c: "set (flags_in (source_text (rev sample_decls) sample_tail))
       = set (flags_in (source_text sample_decls sample_tail))"
    by blast
  from a b c sample_well_formed show ?thesis by blast
qed

text \<open>
  The condition on names cannot be dropped: a short name that ends with the text of a
  typed call makes the typed pattern match across the closing quote, and one declaration
  yields two symbols.
\<close>

lemma call_text_in_name_adds_symbol:
  "flags_in call_in_name_source = ['', '', ''verbose'']"
  by code_simp

end
